theory Spec2Isabelle
  imports Main "HOL-Library.Word"
begin

unbundle bit_operations_syntax

section \<open>Bytes, big-endian integers and the IEEE CRC-32\<close>

type_synonym byte = "8 word"
type_synonym u32 = "32 word"

text \<open>The constants of both source files.\<close>

definition pngHeader :: "byte list" where
  "pngHeader = [0x89, 0x50, 0x4E, 0x47, 0x0D, 0x0A, 0x1A, 0x0A]"

definition maxChunkLen :: u32 where
  "maxChunkLen = 0x7fffffff"

definition IDAT :: "byte list" where
  "IDAT = [0x49, 0x44, 0x41, 0x54]"

definition IHDR :: "byte list" where
  "IHDR = [0x49, 0x48, 0x44, 0x52]"

text \<open>\<open>binary.BigEndian.Uint32\<close> of a four-byte slice, and the four bytes
  \<open>binary.Write(w, binary.BigEndian, v)\<close> produces for a \<open>uint32\<close>.\<close>

definition Uint32 :: "byte list \<Rightarrow> u32" where
  "Uint32 bs = foldl (\<lambda>acc b. push_bit 8 acc OR ucast b) 0 (take 4 bs)"

definition be32 :: "u32 \<Rightarrow> byte list" where
  "be32 v = [ucast (drop_bit 24 v), ucast (drop_bit 16 v), ucast (drop_bit 8 v), ucast v]"

text \<open>\<open>hash/crc32\<close> with the IEEE polynomial, bit by bit. The digest of Go's
  \<open>crc32.NewIEEE()\<close> keeps the finished checksum: \<open>Reset\<close> stores 0, \<open>Write\<close>
  complements, runs the bytes through the shift register and complements again,
  \<open>Sum32\<close> returns the stored value.\<close>

definition crc_bit :: "u32 \<Rightarrow> u32" where
  "crc_bit c = (if c AND 1 = 1 then drop_bit 1 c XOR 0xedb88320 else drop_bit 1 c)"

definition crc_byte :: "u32 \<Rightarrow> byte \<Rightarrow> u32" where
  "crc_byte c b = (crc_bit ^^ 8) (c XOR ucast b)"

definition crc_Write :: "u32 \<Rightarrow> byte list \<Rightarrow> u32" where
  "crc_Write c bs = NOT (foldl crc_byte (NOT c) bs)"

definition crc_Reset :: u32 where
  "crc_Reset = 0"

text \<open>The checksum of a whole chunk: a fresh accumulator fed the type tag and the data.\<close>

definition chunk_crc :: "byte list \<Rightarrow> byte list \<Rightarrow> u32" where
  "chunk_crc ty d = crc_Write (crc_Write crc_Reset ty) d"

text \<open>The wire format of one chunk.\<close>

definition chunk_bytes :: "byte list \<Rightarrow> byte list \<Rightarrow> byte list" where
  "chunk_bytes ty d = be32 (word_of_nat (length d)) @ ty @ d @ be32 (chunk_crc ty d)"

section \<open>Errors and the byte source\<close>

text \<open>Every error value either file can return. \<open>ErrCodec\<close> stands for the errors of
  \<open>compress/zlib\<close> and \<open>compress/flate\<close> (bad header, corrupt input, bad checksum),
  \<open>ErrLevel\<close> for \<open>zlib.NewWriterLevel\<close> rejecting the level, \<open>ErrNilPointer\<close>
  for the panic of a method call through a \<open>nil\<close> reader or writer.\<close>

datatype err =
    EOF
  | ErrUnexpectedEOF
  | ErrNotPNG
  | ErrMissingIHDR
  | ErrIHDRLength
  | ErrCompressionMethod
  | ErrChecksum
  | ErrIDATChecksum
  | ErrChunkTooBig
  | ErrIDATChunkTooBig
  | ErrIDATOrder
  | ErrCodec
  | ErrLevel
  | ErrNilPointer

text \<open>The source \<open>io.Reader\<close> is the list of bytes not yet read. \<open>io.ReadFull\<close> of
  \<open>n\<close> bytes: \<open>io.EOF\<close> when nothing is left, \<open>io.ErrUnexpectedEOF\<close> (with the bytes
  that were there) when fewer than \<open>n\<close> are left. A single \<open>Read\<close> into a buffer of
  \<open>k\<close> bytes returns as many bytes as are there, up to \<open>k\<close>; \<open>(0, io.EOF)\<close> at the
  end of the source; \<open>(0, nil)\<close> for an empty buffer.\<close>

definition ReadFull :: "byte list \<Rightarrow> nat \<Rightarrow> err option \<times> byte list \<times> byte list" where
  "ReadFull src n =
     (if n = 0 then (None, [], src)
      else if src = [] then (Some EOF, [], src)
      else if length src < n then (Some ErrUnexpectedEOF, src, [])
      else (None, take n src, drop n src))"

definition srcRead :: "byte list \<Rightarrow> nat \<Rightarrow> byte list \<times> err option \<times> byte list" where
  "srcRead src k =
     (if k = 0 then ([], None, src)
      else if src = [] then ([], Some EOF, src)
      else (take k src, None, drop k src))"

text \<open>Reading into a prefix of the scratch array \<open>tmp\<close> overwrites that prefix only.\<close>

definition fill :: "byte list \<Rightarrow> byte list \<Rightarrow> byte list" where
  "fill tmp bs = bs @ drop (length bs) tmp"

section \<open>The codec\<close>

text \<open>\<open>compress/zlib\<close> is not part of the repository. The inflating reader is taken
  as a parameter: a well-founded tree that says, at each point, whether the reader calls
  \<open>Read\<close> on the reader it wraps (with a buffer of the given length, continuing with
  what that call returned) or returns from its own \<open>Read\<close>. \<open>zopen\<close> is
  \<open>zlib.NewReader\<close>, which already reads the stream header.\<close>

datatype zrd =
    ZCall nat "byte list \<times> err option \<Rightarrow> zrd"
  | ZData "byte list" zrd
  | ZDone "byte list" err

datatype zopen =
    ZOpenCall nat "byte list \<times> err option \<Rightarrow> zopen"
  | ZOpenFail err
  | ZOpened zrd

text \<open>The deflating writer, also a parameter: \<open>zlib.NewWriterLevel\<close>, and for
  \<open>Write\<close>, \<open>Flush\<close> and \<open>Close\<close> the bytes each appends to the buffer it writes to.\<close>

record 'e zlibw =
  NewWriterLevel :: "int \<Rightarrow> err + 'e"
  zwWrite :: "'e \<Rightarrow> byte list \<Rightarrow> byte list \<times> 'e"
  zwFlush :: "'e \<Rightarrow> byte list \<times> 'e"
  zwClose :: "'e \<Rightarrow> byte list"

section \<open>pnglevel.go: the push-based repacker\<close>

text \<open>\<open>type repacker struct\<close>. \<open>rp_r\<close> is what is left of the source, \<open>rp_w\<close>
  everything written to the sink so far (a sink whose writes succeed); \<open>buf\<close> is only
  scratch space for \<open>zr.Read\<close> and is not kept.\<close>

record repacker =
  rp_r :: "byte list"
  rp_w :: "byte list"
  rp_level :: int
  rp_tmp :: "byte list"
  rp_crc :: u32
  rp_idatLength :: u32
  rp_haveLastChunk :: bool
  rp_haveIDAT :: bool

definition readTmp :: "repacker \<Rightarrow> nat \<Rightarrow> err option \<times> repacker" where
  "readTmp p n =
     (case ReadFull (rp_r p) n of
        (e, bs, rest) \<Rightarrow> (e, p\<lparr>rp_r := rest, rp_tmp := fill (rp_tmp p) bs\<rparr>))"

definition chunk :: "repacker \<Rightarrow> (err + nat \<times> byte list) \<times> repacker" where
  "chunk p =
     (case readTmp p 8 of
        (Some e, p1) \<Rightarrow> (Inl e, p1)
      | (None, p1) \<Rightarrow>
          let ulen = Uint32 (take 4 (rp_tmp p1)) in
          if ulen > maxChunkLen then (Inl ErrChunkTooBig, p1)
          else (Inr (unat ulen, take 4 (drop 4 (rp_tmp p1))),
                p1\<lparr>rp_crc := crc_Write crc_Reset (take 4 (drop 4 (rp_tmp p1)))\<rparr>))"

definition verifyCrc :: "repacker \<Rightarrow> err option \<times> repacker" where
  "verifyCrc p =
     (case readTmp p 4 of
        (Some e, p1) \<Rightarrow> (Some e, p1)
      | (None, p1) \<Rightarrow>
          if Uint32 (take 4 (rp_tmp p1)) \<noteq> rp_crc p1 then (Some ErrChecksum, p1)
          else (None, p1))"

text \<open>\<open>io.CopyN(io.MultiWriter(p.w, p.crc), p.r, length)\<close>: what is there, up to
  \<open>length\<close> bytes, goes to the sink and to the checksum; \<open>io.EOF\<close> when the source
  ends first.\<close>

definition handleAnyChunk :: "repacker \<Rightarrow> nat \<Rightarrow> err option \<times> repacker" where
  "handleAnyChunk p len =
     (let p1 = p\<lparr>rp_w := rp_w p @ take 8 (rp_tmp p)\<rparr>;
          d = take len (rp_r p1);
          p2 = p1\<lparr>rp_r := drop len (rp_r p1), rp_w := rp_w p1 @ d,
                  rp_crc := crc_Write (rp_crc p1) d\<rparr>
      in if length d < len then (Some EOF, p2)
         else (case verifyCrc p2 of
                 (Some e, p3) \<Rightarrow> (Some e, p3)
               | (None, p3) \<Rightarrow> (None, p3\<lparr>rp_w := rp_w p3 @ take 4 (rp_tmp p3)\<rparr>)))"

definition header :: "repacker \<Rightarrow> err option \<times> repacker" where
  "header p =
     (case readTmp p 8 of
        (Some e, p1) \<Rightarrow> (Some e, p1)
      | (None, p1) \<Rightarrow>
          if take 8 (rp_tmp p1) \<noteq> pngHeader then (Some ErrNotPNG, p1)
          else
            let p2 = p1\<lparr>rp_w := rp_w p1 @ take 8 (rp_tmp p1)\<rparr> in
            (case chunk p2 of
               (Inl e, p3) \<Rightarrow> (Some e, p3)
             | (Inr (len, kind), p3) \<Rightarrow>
                 if kind \<noteq> IHDR then (Some ErrMissingIHDR, p3)
                 else if len \<noteq> 13 then (Some ErrIHDRLength, p3)
                 else
                   let p4 = p3\<lparr>rp_w := rp_w p3 @ take 8 (rp_tmp p3)\<rparr> in
                   (case readTmp p4 13 of
                      (Some e, p5) \<Rightarrow> (Some e, p5)
                    | (None, p5) \<Rightarrow>
                        if rp_tmp p5 ! 10 \<noteq> 0 then (Some ErrCompressionMethod, p5)
                        else
                          let p6 = p5\<lparr>rp_crc := crc_Write (rp_crc p5) (take 13 (rp_tmp p5)),
                                      rp_w := rp_w p5 @ take 13 (rp_tmp p5)\<rparr> in
                          (case verifyCrc p6 of
                             (Some e, p7) \<Rightarrow> (Some e, p7)
                           | (None, p7) \<Rightarrow>
                               (None, p7\<lparr>rp_w := rp_w p7 @ take 4 (rp_tmp p7)\<rparr>)))))"

text \<open>\<open>func (p *repacker) Read\<close>, the reader the inflating reader wraps. \<open>idatNext\<close>
  is its loop \<open>for p.idatLength == 0\<close>: the result \<open>Some e\<close> is a \<open>return\<close> from
  inside the loop.\<close>

function idatNext :: "repacker \<Rightarrow> err option \<times> repacker" where
  "idatNext p =
     (if rp_idatLength p \<noteq> 0 then (None, p)
      else
        (case readTmp p 4 of
           (Some e, p1) \<Rightarrow> (Some e, p1)
         | (None, p1) \<Rightarrow>
             if Uint32 (take 4 (rp_tmp p1)) \<noteq> rp_crc p1 then (Some ErrIDATChecksum, p1)
             else
               (case readTmp p1 8 of
                  (Some e, p2) \<Rightarrow> (Some e, p2)
                | (None, p2) \<Rightarrow>
                    let p3 = p2\<lparr>rp_idatLength := Uint32 (take 4 (rp_tmp p2))\<rparr> in
                    if take 4 (drop 4 (rp_tmp p3)) \<noteq> IDAT
                    then (Some EOF, p3\<lparr>rp_haveLastChunk := True\<rparr>)
                    else idatNext
                           (p3\<lparr>rp_crc := crc_Write crc_Reset (take 4 (drop 4 (rp_tmp p3)))\<rparr>))))"
  by pat_completeness auto
termination
  by (relation "measure (\<lambda>p. length (rp_r p))")
     (auto simp: readTmp_def ReadFull_def split: if_splits)

definition Read :: "repacker \<Rightarrow> nat \<Rightarrow> (byte list \<times> err option) \<times> repacker" where
  "Read p n =
     (if n = 0 then (([], None), p)
      else
        (case idatNext p of
           (Some e, p1) \<Rightarrow> (([], Some e), p1)
         | (None, p1) \<Rightarrow>
             if rp_idatLength p1 > maxChunkLen then (([], Some ErrIDATChunkTooBig), p1)
             else
               (case srcRead (rp_r p1) (min n (unat (rp_idatLength p1))) of
                  (bs, e, rest) \<Rightarrow>
                    ((bs, e),
                     p1\<lparr>rp_r := rest, rp_crc := crc_Write (rp_crc p1) bs,
                        rp_idatLength := rp_idatLength p1 - word_of_nat (length bs)\<rparr>))))"

text \<open>\<open>zlib.NewReader(p)\<close> and one \<open>zr.Read(p.buf)\<close>, run against the repacker.\<close>

primrec runOpen :: "zopen \<Rightarrow> repacker \<Rightarrow> (err + zrd) \<times> repacker" where
  "runOpen (ZOpenCall n k) p = (case Read p n of (res, p1) \<Rightarrow> runOpen (k res) p1)"
| "runOpen (ZOpenFail e) p = (Inl e, p)"
| "runOpen (ZOpened z) p = (Inr z, p)"

text \<open>One emitted image-data chunk: length, tag, data, checksum, as \<open>handleIDAT\<close>
  writes them; \<open>icrc\<close> is the local accumulator at that point.\<close>

definition emitIDAT :: "u32 \<Rightarrow> byte list \<Rightarrow> byte list" where
  "emitIDAT icrc b =
     be32 (word_of_nat (length b)) @ IDAT @ b @ be32 (crc_Write (crc_Write icrc IDAT) b)"

text \<open>The loop \<open>for !eof\<close> of \<open>handleIDAT\<close>, with its locals: the writer \<open>zw\<close>, the
  buffer \<open>buf\<close> it writes to and the accumulator \<open>icrc\<close>. The deferred \<open>zw.Close()\<close>
  appends to \<open>buf\<close> after the loop, and \<open>buf\<close> is dropped on return.\<close>

primrec idatLoop ::
  "zrd \<Rightarrow> ('e, 'x) zlibw_scheme \<Rightarrow> 'e \<Rightarrow> byte list \<Rightarrow> u32 \<Rightarrow> repacker \<Rightarrow> err option \<times> repacker"
where
  "idatLoop (ZCall n k) Z zw buf icrc p =
     (case Read p n of (res, p1) \<Rightarrow> idatLoop (k res) Z zw buf icrc p1)"
| "idatLoop (ZData bs z) Z zw buf icrc p =
     (if length bs = 0 then idatLoop z Z zw buf icrc p
      else
        (case zwWrite Z zw bs of
           (o1, zw1) \<Rightarrow>
             (case zwFlush Z zw1 of
                (o2, zw2) \<Rightarrow>
                  let buf1 = buf @ o1 @ o2 in
                  idatLoop z Z zw2 [] crc_Reset (p\<lparr>rp_w := rp_w p @ emitIDAT icrc buf1\<rparr>))))"
| "idatLoop (ZDone bs e) Z zw buf icrc p =
     (if e \<noteq> EOF then (Some e, p)
      else if length bs = 0 then (None, p)
      else
        (case zwWrite Z zw bs of
           (o1, zw1) \<Rightarrow>
             (case zwFlush Z zw1 of
                (o2, zw2) \<Rightarrow>
                  let buf1 = buf @ o1 @ o2 in
                  (None, p\<lparr>rp_w := rp_w p @ emitIDAT icrc buf1\<rparr>))))"

definition handleIDAT ::
  "('e, 'x) zlibw_scheme \<Rightarrow> zopen \<Rightarrow> repacker \<Rightarrow> nat \<Rightarrow> err option \<times> repacker" where
  "handleIDAT Z zo p len =
     (case runOpen zo (p\<lparr>rp_idatLength := word_of_nat len\<rparr>) of
        (Inl e, p1) \<Rightarrow> (Some e, p1)
      | (Inr zr, p1) \<Rightarrow>
          (case NewWriterLevel Z (rp_level p1) of
             Inl e \<Rightarrow> (Some e, p1)
           | Inr zw \<Rightarrow> idatLoop zr Z zw [] crc_Reset p1))"

section \<open>The source only shrinks\<close>

lemma readTmp_len: "readTmp p n = (e, p1) \<Longrightarrow> length (rp_r p1) \<le> length (rp_r p)"
  by (auto simp: readTmp_def ReadFull_def split: if_splits)

lemma readTmp_ok_len: "readTmp p n = (None, p1) \<Longrightarrow> length (rp_r p1) + n = length (rp_r p)"
  by (auto simp: readTmp_def ReadFull_def split: if_splits)

declare idatNext.simps [simp del]

lemma idatNext_len: "length (rp_r (snd (idatNext p))) \<le> length (rp_r p)"
proof (induction p rule: idatNext.induct)
  case (1 p)
  show ?case
  proof (cases "rp_idatLength p \<noteq> 0")
    case True
    then show ?thesis by (simp add: idatNext.simps[of p])
  next
    case False
    note z = this
    obtain e1 q1 where r1: "readTmp p 4 = (e1, q1)" by (cases "readTmp p 4")
    obtain e2 q2 where r2: "readTmp q1 8 = (e2, q2)" by (cases "readTmp q1 8")
    note l1 = readTmp_len[OF r1] and l2 = readTmp_len[OF r2]
    show ?thesis
    proof (cases "e1 = None \<and> Uint32 (take 4 (rp_tmp q1)) = rp_crc q1 \<and> e2 = None
                  \<and> take 4 (drop 4 (rp_tmp q2)) = IDAT")
      case True
      then have "length (rp_r (snd (idatNext (q2\<lparr>rp_idatLength := Uint32 (take 4 (rp_tmp q2)),
                   rp_crc := crc_Write crc_Reset (take 4 (drop 4 (rp_tmp q2)))\<rparr>))))
                 \<le> length (rp_r q2)"
        using "1.IH"[OF z r1[symmetric] _ _ r2[symmetric] _ refl] by simp
      with True z r1 r2 l1 l2 show ?thesis by (simp add: idatNext.simps[of p] Let_def)
    next
      case False
      with z r1 r2 l1 l2 show ?thesis
        by (auto simp add: idatNext.simps[of p] Let_def split: option.splits)
    qed
  qed
qed

lemma Read_len: "Read p n = (res, p1) \<Longrightarrow> length (rp_r p1) \<le> length (rp_r p)"
  using idatNext_len[of p]
  by (auto simp: Read_def srcRead_def split: if_splits prod.splits option.splits)

lemma runOpen_len: "runOpen zo p = (res, p1) \<Longrightarrow> length (rp_r p1) \<le> length (rp_r p)"
proof (induction zo arbitrary: p res p1)
  case (ZOpenCall n k)
  obtain rr q where R: "Read p n = (rr, q)" by (cases "Read p n")
  with ZOpenCall.prems have "runOpen (k rr) q = (res, p1)" by simp
  from ZOpenCall.IH[OF _ this] Read_len[OF R] show ?case by (simp add: rangeI)
qed auto

lemma idatLoop_len: "idatLoop z Z zw buf icrc p = (res, p1) \<Longrightarrow> length (rp_r p1) \<le> length (rp_r p)"
proof (induction z arbitrary: p res p1 zw buf icrc)
  case (ZCall n k)
  obtain rr q where R: "Read p n = (rr, q)" by (cases "Read p n")
  with ZCall.prems have "idatLoop (k rr) Z zw buf icrc q = (res, p1)" by simp
  from ZCall.IH[OF _ this] Read_len[OF R] show ?case by (simp add: rangeI)
next
  case (ZData bs z)
  then show ?case by (fastforce split: if_splits prod.splits)
next
  case (ZDone bs e)
  then show ?case by (auto split: if_splits prod.splits)
qed

lemma handleIDAT_len: "handleIDAT Z zo p len = (res, p1) \<Longrightarrow> length (rp_r p1) \<le> length (rp_r p)"
  by (auto simp: handleIDAT_def split: prod.splits sum.splits dest!: runOpen_len idatLoop_len)

lemma handleAnyChunk_len: "handleAnyChunk p len = (res, p1) \<Longrightarrow> length (rp_r p1) \<le> length (rp_r p)"
  by (auto simp: handleAnyChunk_def verifyCrc_def Let_def split: prod.splits option.splits if_splits dest!: readTmp_len)

lemma chunk_len: "chunk p = (Inr lk, p1) \<Longrightarrow> length (rp_r p1) < length (rp_r p)"
  by (auto simp: chunk_def Let_def split: prod.splits option.splits if_splits dest!: readTmp_ok_len)


section \<open>pnglevel.go: the main loop\<close>

text \<open>The loop \<open>for { ... }\<close> of \<open>repack\<close>. It ends with \<open>nil\<close> when \<open>chunk\<close>
  meets \<open>io.EOF\<close>; every other error is returned as it is.\<close>

function repack_loop ::
  "('e, 'x) zlibw_scheme \<Rightarrow> zopen \<Rightarrow> repacker \<Rightarrow> err option \<times> repacker" where
  "repack_loop Z zo p =
     (case chunk p of
        (Inl e, p1) \<Rightarrow> (if e = EOF then None else Some e, p1)
      | (Inr (len, kind), p1) \<Rightarrow>
          if kind = IDAT then
            if rp_haveIDAT p1 then (Some ErrIDATOrder, p1)
            else
              (case handleIDAT Z zo p1 len of
                 (Some e, p2) \<Rightarrow> (Some e, p2)
               | (None, p2) \<Rightarrow>
                   let p3 = p2\<lparr>rp_haveIDAT := True\<rparr> in
                   if \<not> rp_haveLastChunk p3 then
                     (case readTmp p3 4 of
                        (Some e, p4) \<Rightarrow> (Some e, p4)
                      | (None, p4) \<Rightarrow>
                          if Uint32 (take 4 (rp_tmp p4)) \<noteq> rp_crc p4
                          then (Some ErrIDATChecksum, p4)
                          else repack_loop Z zo p4)
                   else
                     let ulen = Uint32 (take 4 (rp_tmp p3)) in
                     if ulen > maxChunkLen then (Some ErrChunkTooBig, p3)
                     else
                       (case handleAnyChunk p3 (unat ulen) of
                          (Some e, p5) \<Rightarrow> (Some e, p5)
                        | (None, p5) \<Rightarrow> repack_loop Z zo p5))
          else
            (case handleAnyChunk p1 len of
               (Some e, p5) \<Rightarrow> (Some e, p5)
             | (None, p5) \<Rightarrow> repack_loop Z zo p5))"
  by pat_completeness auto
termination
proof (relation "measure (\<lambda>(Z, zo, p). length (rp_r p))", goal_cases)
  case 1
  show ?case by simp
next
  case (2 Z zo p x1 p1 lk len kind x1a p2 p3 x1b p4)
  then show ?case
    using chunk_len[of p lk p1] handleIDAT_len[of Z zo p1 len x1a p2] readTmp_len[of p3 4 x1b p4]
    by simp
next
  case (3 Z zo p x1 p1 lk len kind x1a p2 p3 ulen x1b p5)
  then show ?case
    using chunk_len[of p lk p1] handleIDAT_len[of Z zo p1 len x1a p2]
      handleAnyChunk_len[of p3 "unat ulen" x1b p5]
    by simp
next
  case (4 Z zo p x1 p1 lk len kind x1a p5)
  then show ?case
    using chunk_len[of p lk p1] handleAnyChunk_len[of p1 len x1a p5]
    by simp
qed

declare repack_loop.simps [simp del]

definition repack :: "('e, 'x) zlibw_scheme \<Rightarrow> zopen \<Rightarrow> repacker \<Rightarrow> err option \<times> repacker" where
  "repack Z zo p =
     (case header p of
        (Some e, p1) \<Rightarrow> (Some e, p1)
      | (None, p1) \<Rightarrow> repack_loop Z zo p1)"

text \<open>\<open>Repack(w, r, level)\<close>: the error returned and everything written to \<open>w\<close>.\<close>

definition newRepacker :: "byte list \<Rightarrow> int \<Rightarrow> repacker" where
  "newRepacker src lvl =
     \<lparr>rp_r = src, rp_w = [], rp_level = lvl, rp_tmp = replicate 13 0, rp_crc = crc_Reset,
      rp_idatLength = 0, rp_haveLastChunk = False, rp_haveIDAT = False\<rparr>"

definition Repack ::
  "('e, 'x) zlibw_scheme \<Rightarrow> zopen \<Rightarrow> byte list \<Rightarrow> int \<Rightarrow> err option \<times> byte list" where
  "Repack Z zo src lvl = (case repack Z zo (newRepacker src lvl) of (e, p) \<Rightarrow> (e, rp_w p))"

section \<open>The second source file: the pull-based Reader\<close>

text \<open>Its buffer is \<open>bufSize = 32768\<close> bytes long.\<close>

definition bufSize2 :: nat where
  "bufSize2 = 32768"

datatype stage = stStart | stChunkHead | stChunkData | stChunkCrc | stIDAT

text \<open>\<open>type Reader struct\<close>. \<open>rd_w\<close> is the \<open>bytes.Buffer\<close> of output not yet
  handed to the caller of \<open>Read\<close>; \<open>rd_zr\<close> is the inflating reader at its current
  point and \<open>rd_zw\<close> the deflating writer (both \<open>nil\<close> until the image data starts).\<close>

record 'e Reader =
  rd_r :: "byte list"
  rd_w :: "byte list"
  rd_level :: int
  rd_tmp :: "byte list"
  rd_crc :: u32
  rd_readNonIDAT :: bool
  rd_processedIDAT :: bool
  rd_stage :: stage
  rd_chunkLen :: nat
  rd_chunkType :: "byte list"
  rd_zr :: "zrd option"
  rd_zw :: "'e option"
  rd_zbuf :: "byte list"
  rd_zcrc :: u32
  rd_eof :: bool

definition readTmp2 :: "('e, 'y) Reader_scheme \<Rightarrow> nat \<Rightarrow> err option \<times> ('e, 'y) Reader_scheme" where
  "readTmp2 q n =
     (case ReadFull (rd_r q) n of
        (e, bs, rest) \<Rightarrow> (e, q\<lparr>rd_r := rest, rd_tmp := fill (rd_tmp q) bs\<rparr>))"

definition chunkHeader ::
  "('e, 'y) Reader_scheme \<Rightarrow> (err + nat \<times> byte list) \<times> ('e, 'y) Reader_scheme" where
  "chunkHeader q =
     (case readTmp2 q 8 of
        (Some e, q1) \<Rightarrow> (Inl e, q1)
      | (None, q1) \<Rightarrow>
          let ulen = Uint32 (take 4 (rd_tmp q1)) in
          if ulen > maxChunkLen then (Inl ErrChunkTooBig, q1)
          else
            let kind = take 4 (drop 4 (rd_tmp q1));
                q2 = (if kind \<noteq> IDAT then q1\<lparr>rd_w := rd_w q1 @ take 8 (rd_tmp q1)\<rparr> else q1)
            in (Inr (unat ulen, kind), q2\<lparr>rd_crc := crc_Write crc_Reset kind\<rparr>))"

definition verifyCrc2 :: "('e, 'y) Reader_scheme \<Rightarrow> err option \<times> ('e, 'y) Reader_scheme" where
  "verifyCrc2 q =
     (case readTmp2 q 4 of
        (Some e, q1) \<Rightarrow> (Some e, q1)
      | (None, q1) \<Rightarrow>
          if Uint32 (take 4 (rd_tmp q1)) \<noteq> rd_crc q1 then (Some ErrChecksum, q1)
          else (None, q1\<lparr>rd_w := rd_w q1 @ take 4 (rd_tmp q1), rd_crc := crc_Reset\<rparr>))"

definition verifyHeader :: "('e, 'y) Reader_scheme \<Rightarrow> err option \<times> ('e, 'y) Reader_scheme" where
  "verifyHeader q =
     (case readTmp2 q 8 of
        (Some e, q1) \<Rightarrow> (Some e, q1)
      | (None, q1) \<Rightarrow>
          if take 8 (rd_tmp q1) \<noteq> pngHeader then (Some ErrNotPNG, q1)
          else
            let q2 = q1\<lparr>rd_w := rd_w q1 @ take 8 (rd_tmp q1)\<rparr> in
            (case chunkHeader q2 of
               (Inl e, q3) \<Rightarrow> (Some e, q3)
             | (Inr (len, kind), q3) \<Rightarrow>
                 if kind \<noteq> IHDR then (Some ErrMissingIHDR, q3)
                 else if len \<noteq> 13 then (Some ErrIHDRLength, q3)
                 else
                   (case readTmp2 q3 13 of
                      (Some e, q5) \<Rightarrow> (Some e, q5)
                    | (None, q5) \<Rightarrow>
                        if rd_tmp q5 ! 10 \<noteq> 0 then (Some ErrCompressionMethod, q5)
                        else
                          verifyCrc2
                            (q5\<lparr>rd_crc := crc_Write (rd_crc q5) (take 13 (rd_tmp q5)),
                                rd_w := rd_w q5 @ take 13 (rd_tmp q5)\<rparr>))))"

text \<open>\<open>func (p *idatReader) Read\<close>; \<open>idatNext2\<close> is its loop
  \<open>for p.r.chunkLen == 0\<close>.\<close>

function idatNext2 :: "('e, 'y) Reader_scheme \<Rightarrow> err option \<times> ('e, 'y) Reader_scheme" where
  "idatNext2 q =
     (if rd_chunkLen q \<noteq> 0 then (None, q)
      else
        (case readTmp2 q 4 of
           (Some e, q1) \<Rightarrow> (Some e, q1)
         | (None, q1) \<Rightarrow>
             if Uint32 (take 4 (rd_tmp q1)) \<noteq> rd_crc q1 then (Some ErrIDATChecksum, q1)
             else
               (case readTmp2 q1 8 of
                  (Some e, q2) \<Rightarrow> (Some e, q2)
                | (None, q2) \<Rightarrow>
                    let ulen = Uint32 (take 4 (rd_tmp q2)) in
                    if ulen > maxChunkLen then (Some ErrChunkTooBig, q2)
                    else
                      let q3 = q2\<lparr>rd_chunkLen := unat ulen\<rparr> in
                      if rd_chunkLen q3 > unat maxChunkLen
                      then (Some ErrIDATChunkTooBig, q3)
                      else
                        let q4 = q3\<lparr>rd_chunkType := take 4 (drop 4 (rd_tmp q3)),
                                    rd_crc := crc_Write crc_Reset (take 4 (drop 4 (rd_tmp q3)))\<rparr>
                        in if rd_chunkType q4 \<noteq> IDAT
                           then (Some EOF, q4\<lparr>rd_readNonIDAT := True\<rparr>)
                           else idatNext2 q4)))"
  by pat_completeness auto
termination
  by (relation "measure (\<lambda>q. length (rd_r q))")
     (auto simp: readTmp2_def ReadFull_def split: if_splits)

declare idatNext2.simps [simp del]

definition idatReader_Read ::
  "('e, 'y) Reader_scheme \<Rightarrow> nat \<Rightarrow> (byte list \<times> err option) \<times> ('e, 'y) Reader_scheme" where
  "idatReader_Read q n =
     (if n = 0 then (([], None), q)
      else
        (case idatNext2 q of
           (Some e, q1) \<Rightarrow> (([], Some e), q1)
         | (None, q1) \<Rightarrow>
             (case srcRead (rd_r q1) (min n (rd_chunkLen q1)) of
                (bs, e, rest) \<Rightarrow>
                  ((bs, e),
                   q1\<lparr>rd_r := rest, rd_crc := crc_Write (rd_crc q1) bs,
                      rd_chunkLen := rd_chunkLen q1 - length bs\<rparr>))))"

text \<open>\<open>zlib.NewReader(&idatReader{r: p})\<close> and one \<open>p.zr.Read(p.buf)\<close>. A reader that
  has returned an error keeps returning it, with no bytes.\<close>

primrec runOpen2 ::
  "zopen \<Rightarrow> ('e, 'y) Reader_scheme \<Rightarrow> (err + zrd) \<times> ('e, 'y) Reader_scheme" where
  "runOpen2 (ZOpenCall n k) q = (case idatReader_Read q n of (res, q1) \<Rightarrow> runOpen2 (k res) q1)"
| "runOpen2 (ZOpenFail e) q = (Inl e, q)"
| "runOpen2 (ZOpened z) q = (Inr z, q)"

primrec zrRead ::
  "zrd \<Rightarrow> ('e, 'y) Reader_scheme \<Rightarrow> (byte list \<times> err option \<times> zrd) \<times> ('e, 'y) Reader_scheme" where
  "zrRead (ZCall n k) q = (case idatReader_Read q n of (res, q1) \<Rightarrow> zrRead (k res) q1)"
| "zrRead (ZData bs z) q = ((bs, None, z), q)"
| "zrRead (ZDone bs e) q = ((bs, Some e, ZDone [] e), q)"

definition handleChunkData ::
  "('e, 'x) zlibw_scheme \<Rightarrow> zopen \<Rightarrow> ('e, 'y) Reader_scheme
     \<Rightarrow> err option \<times> ('e, 'y) Reader_scheme" where
  "handleChunkData Z zo q =
     (if rd_chunkType q = IDAT then
        if rd_processedIDAT q then (Some ErrIDATOrder, q)
        else
          (case runOpen2 zo q of
             (Inl e, q1) \<Rightarrow> (Some e, q1\<lparr>rd_zr := None\<rparr>)
           | (Inr z, q1) \<Rightarrow>
               (case NewWriterLevel Z (rd_level q1) of
                  Inl e \<Rightarrow> (Some e, q1\<lparr>rd_zr := Some z, rd_zw := None\<rparr>)
                | Inr zw \<Rightarrow>
                    (None, q1\<lparr>rd_zr := Some z, rd_zw := Some zw, rd_processedIDAT := True,
                               rd_stage := stIDAT\<rparr>)))
      else
        (case srcRead (rd_r q) (min bufSize2 (rd_chunkLen q)) of
           (bs, Some e, rest) \<Rightarrow> (Some e, q\<lparr>rd_r := rest\<rparr>)
         | (bs, None, rest) \<Rightarrow>
             let q1 = q\<lparr>rd_r := rest, rd_w := rd_w q @ bs, rd_crc := crc_Write (rd_crc q) bs,
                        rd_chunkLen := rd_chunkLen q - length bs\<rparr>
             in (None, if rd_chunkLen q1 = 0 then q1\<lparr>rd_stage := stChunkCrc\<rparr> else q1)))"

text \<open>\<open>func (p *Reader) handleIDAT\<close>: one read from the inflating reader, one write and
  flush of the deflating writer (and its \<open>Close\<close> at the end of the stream), one chunk
  appended to \<open>p.w\<close>.\<close>

definition handleIDAT2 ::
  "('e, 'x) zlibw_scheme \<Rightarrow> ('e, 'y) Reader_scheme \<Rightarrow> err option \<times> ('e, 'y) Reader_scheme" where
  "handleIDAT2 Z q =
     (case rd_zr q of
        None \<Rightarrow> (Some ErrNilPointer, q)
      | Some z \<Rightarrow>
          (case zrRead z q of
             ((bs, rerr, z1), q0) \<Rightarrow>
               let q1 = q0\<lparr>rd_zr := Some z1\<rparr> in
               if rerr \<noteq> None \<and> rerr \<noteq> Some EOF then (rerr, q1)
               else
                 (case rd_zw q1 of
                    None \<Rightarrow> (Some ErrNilPointer, q1)
                  | Some zw \<Rightarrow>
                      (case zwWrite Z zw bs of
                         (o1, zw1) \<Rightarrow>
                           (case zwFlush Z zw1 of
                              (o2, zw2) \<Rightarrow>
                                let o3 = (if rerr = Some EOF then zwClose Z zw2 else []);
                                    zbuf = rd_zbuf q1 @ o1 @ o2 @ o3;
                                    zcrc = crc_Write (crc_Write (rd_zcrc q1) IDAT) zbuf;
                                    q2 = q1\<lparr>rd_zw := Some zw2,
                                            rd_w := rd_w q1 @ be32 (word_of_nat (length zbuf))
                                                      @ IDAT @ zbuf @ be32 zcrc,
                                            rd_zcrc := crc_Reset, rd_zbuf := []\<rparr>
                                in (if rerr = Some EOF then Some EOF else None, q2))))))"

definition refill ::
  "('e, 'x) zlibw_scheme \<Rightarrow> zopen \<Rightarrow> ('e, 'y) Reader_scheme
     \<Rightarrow> err option \<times> ('e, 'y) Reader_scheme" where
  "refill Z zo q =
     (case rd_stage q of
        stStart \<Rightarrow>
          (case verifyHeader q of
             (Some e, q1) \<Rightarrow> (Some e, q1)
           | (None, q1) \<Rightarrow> (None, q1\<lparr>rd_stage := stChunkHead\<rparr>))
      | stChunkHead \<Rightarrow>
          (case chunkHeader q of
             (Inl e, q1) \<Rightarrow> (Some e, q1)
           | (Inr (len, kind), q1) \<Rightarrow>
               if len > unat maxChunkLen then (Some ErrChunkTooBig, q1)
               else (None, q1\<lparr>rd_chunkLen := len, rd_chunkType := kind,
                              rd_stage := stChunkData\<rparr>))
      | stChunkData \<Rightarrow> handleChunkData Z zo q
      | stChunkCrc \<Rightarrow>
          (case verifyCrc2 q of
             (Some e, q1) \<Rightarrow> (Some e, q1)
           | (None, q1) \<Rightarrow> (None, q1\<lparr>rd_stage := stChunkHead\<rparr>))
      | stIDAT \<Rightarrow>
          (case handleIDAT2 Z q of
             (None, q1) \<Rightarrow> (None, q1)
           | (Some e, q1) \<Rightarrow>
               if e = EOF then
                 if \<not> rd_readNonIDAT q1 then
                   (case readTmp2 q1 4 of
                      (Some e1, q2) \<Rightarrow> (Some e1, q2)
                    | (None, q2) \<Rightarrow>
                        if Uint32 (take 4 (rd_tmp q2)) \<noteq> rd_crc q2
                        then (Some ErrIDATChecksum, q2)
                        else (None, q2\<lparr>rd_stage := stChunkHead\<rparr>))
                 else (None, q1\<lparr>rd_stage := stChunkData\<rparr>)
               else (Some e, q1)))"

section \<open>What one refill changes\<close>

lemma readTmp2_w [simp]: "rd_w (snd (readTmp2 q n)) = rd_w q"
  and readTmp2_eof [simp]: "rd_eof (snd (readTmp2 q n)) = rd_eof q"
  and readTmp2_proc [simp]: "rd_processedIDAT (snd (readTmp2 q n)) = rd_processedIDAT q"
  by (simp_all add: readTmp2_def split: prod.splits)

lemma readTmp2_ok:
  "readTmp2 q n = (None, q1) \<Longrightarrow> length (rd_r q1) + n = length (rd_r q) \<and> take n (rd_tmp q1) = take n (rd_r q)"
  by (auto simp: readTmp2_def ReadFull_def fill_def split: if_splits)

lemma readTmp2_w_eq: "readTmp2 q n = (e, q1) \<Longrightarrow> rd_w q1 = rd_w q"
  by (auto simp: readTmp2_def split: prod.splits)

text \<open>The fields that reading through \<open>idatReader\<close> leaves alone.\<close>

definition same_flags :: "('e, 'y) Reader_scheme \<Rightarrow> ('e, 'y) Reader_scheme \<Rightarrow> bool" where
  "same_flags q q1 \<longleftrightarrow> rd_eof q1 = rd_eof q \<and> rd_processedIDAT q1 = rd_processedIDAT q \<and> rd_w q1 = rd_w q"

lemma same_flags_refl [simp]: "same_flags q q"
  by (simp add: same_flags_def)

lemma same_flags_readTmp2: "same_flags q (snd (readTmp2 q n))"
  by (simp add: same_flags_def)

lemma idatNext2_flags: "same_flags q (snd (idatNext2 q))"
proof (induction q rule: idatNext2.induct)
  case (1 q)
  show ?case
  proof (cases "rd_chunkLen q \<noteq> 0")
    case True
    then show ?thesis by (simp add: idatNext2.simps[of q])
  next
    case False
    note z = this
    obtain e1 q1 where r1: "readTmp2 q 4 = (e1, q1)" by (cases "readTmp2 q 4")
    obtain e2 q2 where r2: "readTmp2 q1 8 = (e2, q2)" by (cases "readTmp2 q1 8")
    have f1: "same_flags q q1" using same_flags_readTmp2[of q 4] r1 by simp
    have f2: "same_flags q1 q2" using same_flags_readTmp2[of q1 8] r2 by simp
    let ?q4 = "q2\<lparr>rd_chunkLen := unat (Uint32 (take 4 (rd_tmp q2))),
                  rd_chunkType := take 4 (drop 4 (rd_tmp q2)),
                  rd_crc := crc_Write crc_Reset (take 4 (drop 4 (rd_tmp q2)))\<rparr>"
    show ?thesis
    proof (cases "e1 = None \<and> Uint32 (take 4 (rd_tmp q1)) = rd_crc q1 \<and> e2 = None
                  \<and> \<not> Uint32 (take 4 (rd_tmp q2)) > maxChunkLen
                  \<and> \<not> unat (Uint32 (take 4 (rd_tmp q2))) > unat maxChunkLen
                  \<and> take 4 (drop 4 (rd_tmp q2)) = IDAT")
      case True
      then have "same_flags ?q4 (snd (idatNext2 ?q4))"
        using "1.IH"[OF z r1[symmetric] _ _ r2[symmetric] _ refl _ refl _ refl] by simp
      with True z r1 r2 f1 f2 show ?thesis
        by (simp add: idatNext2.simps[of q] Let_def same_flags_def)
    next
      case False
      with z r1 r2 f1 f2 show ?thesis
        by (auto simp add: idatNext2.simps[of q] Let_def same_flags_def split: option.splits)
    qed
  qed
qed

lemma idatReader_Read_flags: "same_flags q (snd (idatReader_Read q n))"
  using idatNext2_flags[of q]
  by (auto simp: idatReader_Read_def same_flags_def srcRead_def split: prod.splits option.splits)

lemma runOpen2_flags: "same_flags q (snd (runOpen2 zo q))"
proof (induction zo arbitrary: q)
  case (ZOpenCall n k)
  obtain rr q1 where R: "idatReader_Read q n = (rr, q1)" by (cases "idatReader_Read q n")
  have "same_flags q1 (snd (runOpen2 (k rr) q1))" using ZOpenCall.IH by (simp add: rangeI)
  with idatReader_Read_flags[of q n] R show ?case by (simp add: same_flags_def)
qed simp_all

lemma zrRead_flags: "same_flags q (snd (zrRead z q))"
proof (induction z arbitrary: q)
  case (ZCall n k)
  obtain rr q1 where R: "idatReader_Read q n = (rr, q1)" by (cases "idatReader_Read q n")
  have "same_flags q1 (snd (zrRead (k rr) q1))" using ZCall.IH by (simp add: rangeI)
  with idatReader_Read_flags[of q n] R show ?case by (simp add: same_flags_def)
qed simp_all

text \<open>For the termination of \<open>Read\<close> below: a stage that can be left without
  reading from the source ranks higher than the stage it leads to.\<close>

definition stage_rank :: "stage \<Rightarrow> nat" where
  "stage_rank s = (if s = stChunkData then 1 else 0)"

lemma be32_nonempty [simp]: "be32 v \<noteq> []"
  by (simp add: be32_def)

lemma verifyCrc2_ok_w: "verifyCrc2 q = (None, q1) \<Longrightarrow> rd_w q1 \<noteq> []"
  by (auto simp: verifyCrc2_def readTmp2_def ReadFull_def fill_def split: if_splits option.splits prod.splits)

lemma verifyHeader_ok_w: "verifyHeader q = (None, q1) \<Longrightarrow> rd_w q1 \<noteq> []"
  by (auto simp: verifyHeader_def Let_def split: if_splits option.splits prod.splits sum.splits
           dest: verifyCrc2_ok_w)

lemma handleIDAT2_w: "handleIDAT2 Z q = (res, q1) \<Longrightarrow> res = None \<or> res = Some EOF \<Longrightarrow> rd_w q1 \<noteq> []"
  by (auto simp: handleIDAT2_def Let_def split: if_splits option.splits prod.splits)

lemma refill_progress:
  assumes "refill Z zo q = (None, q1)" "rd_w q1 = []"
  shows "rd_eof q1 = rd_eof q \<and>
         ((\<not> rd_processedIDAT q \<and> rd_processedIDAT q1) \<or>
          (rd_processedIDAT q1 = rd_processedIDAT q \<and>
            (length (rd_r q1) < length (rd_r q) \<or>
             (length (rd_r q1) = length (rd_r q) \<and> stage_rank (rd_stage q1) < stage_rank (rd_stage q)))))"
proof (cases "rd_stage q")
  case stStart
  with assms show ?thesis
    by (auto simp: refill_def split: option.splits prod.splits dest: verifyHeader_ok_w)
next
  case stChunkHead
  with assms show ?thesis
    by (auto simp: refill_def chunkHeader_def Let_def readTmp2_def ReadFull_def
        split: option.splits prod.splits sum.splits if_splits)
next
  case stChunkData
  show ?thesis
  proof (cases "rd_chunkType q = IDAT")
    case True
    with assms stChunkData runOpen2_flags[of q zo] show ?thesis
      by (auto simp: refill_def handleChunkData_def same_flags_def
          split: option.splits prod.splits sum.splits if_splits)
  next
    case False
    with assms stChunkData show ?thesis
      by (auto simp: refill_def handleChunkData_def Let_def srcRead_def stage_rank_def bufSize2_def
          split: option.splits prod.splits sum.splits if_splits)
  qed
next
  case stChunkCrc
  with assms show ?thesis
    by (auto simp: refill_def split: option.splits prod.splits dest: verifyCrc2_ok_w)
next
  case stIDAT
  obtain res q0 where H: "handleIDAT2 Z q = (res, q0)" by (cases "handleIDAT2 Z q")
  from assms stIDAT H have "res = None \<or> res = Some EOF"
    by (auto simp: refill_def split: option.splits if_splits prod.splits)
  from handleIDAT2_w[OF H this] have "rd_w q0 \<noteq> []" .
  moreover have "rd_w q1 = rd_w q0"
    using assms(1) stIDAT H
    by (auto simp: refill_def split: option.splits if_splits prod.splits dest: readTmp2_w_eq)
  ultimately show ?thesis using assms(2) by simp
qed


section \<open>The second source file: Read and Repack\<close>

text \<open>\<open>func (p *Reader) Read\<close>.\<close>

function Reader_Read ::
  "('e, 'x) zlibw_scheme \<Rightarrow> zopen \<Rightarrow> ('e, 'y) Reader_scheme \<Rightarrow> nat
     \<Rightarrow> (byte list \<times> err option) \<times> ('e, 'y) Reader_scheme" where
  "Reader_Read Z zo q n =
     (if rd_w q = [] then
        if rd_eof q then (([], Some EOF), q)
        else
          (case refill Z zo q of
             (Some e, q1) \<Rightarrow>
               if e = EOF then Reader_Read Z zo (q1\<lparr>rd_eof := True\<rparr>) n
               else (([], Some e), q1)
           | (None, q1) \<Rightarrow> Reader_Read Z zo q1 n)
      else
        let k = min n (length (rd_w q)) in
        ((take k (rd_w q), None), q\<lparr>rd_w := drop k (rd_w q)\<rparr>))"
  by pat_completeness auto
termination
  apply (relation "measures [\<lambda>(Z, zo, q, n). if rd_w q = [] then 1 else 0,
                           \<lambda>(Z, zo, q, n). if rd_eof q then 0 else 1,
                           \<lambda>(Z, zo, q, n). if rd_processedIDAT q then 0 else 1,
                           \<lambda>(Z, zo, q, n). length (rd_r q),
                           \<lambda>(Z, zo, q, n). stage_rank (rd_stage q)]")
  subgoal by simp
  subgoal by (auto dest: refill_progress [OF sym])
  subgoal by auto
  done


declare Reader_Read.simps [simp del]

text \<open>\<open>io.Copy(w, p)\<close>: read until the reader returns an error, write what was read;
  \<open>io.EOF\<close> ends the copy without an error. \<open>io.Copy\<close> works for any reader, also one
  that never ends, so its loop is a partial function.\<close>

partial_function (option) io_Copy ::
  "('e, 'x) zlibw_scheme \<Rightarrow> zopen \<Rightarrow> ('e, 'y) Reader_scheme \<Rightarrow> byte list
     \<Rightarrow> (err option \<times> byte list) option" where
  "io_Copy Z zo q acc =
     (case Reader_Read Z zo q 32768 of
        ((bs, er), q1) \<Rightarrow>
          (case er of
             None \<Rightarrow> io_Copy Z zo q1 (acc @ bs)
           | Some e \<Rightarrow> Some (if e = EOF then None else Some e, acc @ bs)))"

definition NewReader :: "byte list \<Rightarrow> int \<Rightarrow> 'e Reader" where
  "NewReader src lvl =
     \<lparr>rd_r = src, rd_w = [], rd_level = lvl, rd_tmp = replicate 13 0, rd_crc = crc_Reset,
      rd_readNonIDAT = False, rd_processedIDAT = False, rd_stage = stStart, rd_chunkLen = 0,
      rd_chunkType = [], rd_zr = None, rd_zw = None, rd_zbuf = [], rd_zcrc = crc_Reset,
      rd_eof = False\<rparr>"

text \<open>\<open>Repack\<close> of the second file: the error returned and everything written to
  \<open>w\<close>; \<open>None\<close> if the copy never ends.\<close>

definition Repack2 ::
  "('e, 'x) zlibw_scheme \<Rightarrow> zopen \<Rightarrow> byte list \<Rightarrow> int \<Rightarrow> (err option \<times> byte list) option" where
  "Repack2 Z zo src lvl = io_Copy Z zo (NewReader src lvl :: 'e Reader) []"

section \<open>An instance of the codec\<close>

text \<open>What \<open>compress/zlib\<close> writes at level 0 (\<open>NoCompression\<close>): the header
  \<open>78 01\<close> before the first output, the pending bytes as stored blocks of at most
  65535 bytes, an empty stored block at every \<open>Flush\<close>, and at \<open>Close\<close> the final
  empty stored block and the Adler-32 checksum of everything written. The other levels
  the library accepts compress; this instance stores at each of them.\<close>

record storeW =
  sw_hdr :: bool
  sw_win :: "byte list"
  sw_a :: nat
  sw_b :: nat

definition adler_byte :: "nat \<times> nat \<Rightarrow> byte \<Rightarrow> nat \<times> nat" where
  "adler_byte s x = (case s of (a, b) \<Rightarrow>
     let a1 = (a + unat x) mod 65521 in (a1, (b + a1) mod 65521))"

definition adler32 :: "nat \<times> nat \<Rightarrow> u32" where
  "adler32 s = (case s of (a, b) \<Rightarrow> word_of_nat (b * 65536 + a))"

definition storedBlock :: "bool \<Rightarrow> byte list \<Rightarrow> byte list" where
  "storedBlock final d =
     (let n = length d mod 65536; m = 65535 - n in
      [if final then 1 else 0, word_of_nat (n mod 256), word_of_nat (n div 256),
       word_of_nat (m mod 256), word_of_nat (m div 256)] @ d)"

definition sw_header :: "storeW \<Rightarrow> byte list" where
  "sw_header s = (if sw_hdr s then [] else [0x78, 0x01])"

fun sw_blocks :: "nat \<Rightarrow> byte list \<Rightarrow> byte list \<times> byte list" where
  "sw_blocks 0 d = ([], d)"
| "sw_blocks (Suc m) d =
     (case sw_blocks m (drop 65535 d) of
        (out, rest) \<Rightarrow> (storedBlock False (take 65535 d) @ out, rest))"

definition sw_Write :: "storeW \<Rightarrow> byte list \<Rightarrow> byte list \<times> storeW" where
  "sw_Write s bs =
     (let total = sw_win s @ bs;
          (out, rest) = sw_blocks ((length total - 1) div 65535) total;
          (a, b) = foldl adler_byte (sw_a s, sw_b s) bs
      in (sw_header s @ out, s\<lparr>sw_hdr := True, sw_win := rest, sw_a := a, sw_b := b\<rparr>))"

definition sw_pending :: "storeW \<Rightarrow> byte list" where
  "sw_pending s = (if sw_win s = [] then [] else storedBlock False (sw_win s))"

definition sw_Flush :: "storeW \<Rightarrow> byte list \<times> storeW" where
  "sw_Flush s =
     (sw_header s @ sw_pending s @ storedBlock False [], s\<lparr>sw_hdr := True, sw_win := []\<rparr>)"

definition sw_Close :: "storeW \<Rightarrow> byte list" where
  "sw_Close s =
     sw_header s @ sw_pending s @ storedBlock True [] @ be32 (adler32 (sw_a s, sw_b s))"

definition zlibStore :: "storeW zlibw" where
  "zlibStore =
     \<lparr>NewWriterLevel = (\<lambda>lvl. if lvl < -2 \<or> lvl > 9 then Inl ErrLevel
                              else Inr \<lparr>sw_hdr = False, sw_win = [], sw_a = 1, sw_b = 0\<rparr>),
      zwWrite = sw_Write, zwFlush = sw_Flush, zwClose = sw_Close\<rparr>"

text \<open>Reading such a stream back, as \<open>compress/zlib\<close> does for stored blocks: the
  header, the blocks up to the final one, the checksum. \<open>ZNeed\<close> says that the bytes
  end before the stream does. A block that is not stored is reported as corrupt: this
  instance does not inflate compressed blocks.\<close>

datatype zparse = ZNeed | ZBad | ZOk "byte list"

function storedBlocks :: "byte list \<Rightarrow> byte list \<Rightarrow> zparse" where
  "storedBlocks bs acc =
     (if length bs < 1 then ZNeed
      else if drop_bit 1 (hd bs) AND 3 \<noteq> 0 then ZBad
      else if length bs < 5 then ZNeed
      else
        let n = unat (bs ! 1) + 256 * unat (bs ! 2);
            m = unat (bs ! 3) + 256 * unat (bs ! 4)
        in if n + m \<noteq> 65535 then ZBad
           else if length bs < 5 + n then ZNeed
           else
             let d = take n (drop 5 bs); rest = drop (5 + n) bs in
             if hd bs AND 1 = 1 then
               (if length rest < 4 then ZNeed
                else if Uint32 (take 4 rest) = adler32 (foldl adler_byte (1, 0) (acc @ d))
                then ZOk (acc @ d) else ZBad)
             else storedBlocks rest (acc @ d))"
  by pat_completeness auto
termination
  by (relation "measure (\<lambda>(bs, acc). length bs)") auto

declare storedBlocks.simps [simp del]

definition zlibHeaderOk :: "byte list \<Rightarrow> bool" where
  "zlibHeaderOk bs \<longleftrightarrow>
     hd bs AND 0x0f = 8 \<and> drop_bit 4 (hd bs) \<le> 7
       \<and> (unat (hd bs) * 256 + unat (bs ! 1)) mod 31 = 0 \<and> (bs ! 1) AND 0x20 = 0"

definition inflateStored :: "byte list \<Rightarrow> zparse" where
  "inflateStored bs =
     (if length bs < 2 then ZNeed
      else if \<not> zlibHeaderOk bs then ZBad
      else storedBlocks (drop 2 bs) [])"

text \<open>The reader on top of it, as the library drives it: it asks the reader it wraps
  for up to 4096 bytes whenever it needs more, turns \<open>io.EOF\<close> in the middle of the
  stream into \<open>io.ErrUnexpectedEOF\<close>, passes every other error on, and never reads past
  the checksum. It gives up after \<open>fuel\<close> reads.\<close>

definition noEOF :: "err \<Rightarrow> err" where
  "noEOF e = (if e = EOF then ErrUnexpectedEOF else e)"

fun storeRd :: "nat \<Rightarrow> byte list \<Rightarrow> zrd" where
  "storeRd fuel acc =
     (case inflateStored acc of
        ZOk d \<Rightarrow> ZDone d EOF
      | ZBad \<Rightarrow> ZDone [] ErrCodec
      | ZNeed \<Rightarrow>
          (case fuel of
             0 \<Rightarrow> ZDone [] ErrCodec
           | Suc f \<Rightarrow>
               ZCall 4096 (\<lambda>(bs, e). case e of None \<Rightarrow> storeRd f (acc @ bs)
                                       | Some e1 \<Rightarrow> ZDone [] (noEOF e1))))"

fun storeOpen :: "nat \<Rightarrow> byte list \<Rightarrow> zopen" where
  "storeOpen fuel acc =
     (if length acc < 2 then
        (case fuel of
           0 \<Rightarrow> ZOpenFail ErrCodec
         | Suc f \<Rightarrow>
             ZOpenCall 4096 (\<lambda>(bs, e). case e of None \<Rightarrow> storeOpen f (acc @ bs)
                                         | Some e1 \<Rightarrow> ZOpenFail (noEOF e1)))
      else if \<not> zlibHeaderOk acc then ZOpenFail ErrCodec
      else ZOpened (storeRd fuel acc))"

section \<open>A small file\<close>

text \<open>A one-pixel greyscale image: signature, header chunk, one image-data chunk holding
  the stored zlib stream of the single byte \<open>0x61\<close>, and the end chunk.\<close>

definition IEND :: "byte list" where
  "IEND = [0x49, 0x45, 0x4E, 0x44]"

definition ihdr1 :: "byte list" where
  "ihdr1 = [0, 0, 0, 1, 0, 0, 0, 1, 8, 0, 0, 0, 0]"

definition idat_in1 :: "byte list" where
  "idat_in1 = [0x78, 0x01, 0x01, 0x01, 0x00, 0xFE, 0xFF, 0x61, 0x00, 0x62, 0x00, 0x62]"

definition png1 :: "byte list" where
  "png1 = pngHeader @ chunk_bytes IHDR ihdr1 @ chunk_bytes IDAT idat_in1 @ chunk_bytes IEND []"

text \<open>The image data the two files write for it at level 0: the header and the flushed
  stored block; and the same followed by the final block and the Adler-32 checksum.\<close>

definition idat_flushed1 :: "byte list" where
  "idat_flushed1 =
     [0x78, 0x01, 0x00, 0x01, 0x00, 0xFE, 0xFF, 0x61, 0x00, 0x00, 0x00, 0xFF, 0xFF]"

definition idat_closed1 :: "byte list" where
  "idat_closed1 = idat_flushed1 @ [0x01, 0x00, 0x00, 0xFF, 0xFF, 0x00, 0x62, 0x00, 0x62]"

section \<open>Basic facts\<close>

lemma length_be32 [simp]: "length (be32 v) = 4"
  by (simp add: be32_def)

lemma Uint32_be32 [simp]: "Uint32 (be32 v) = v"
proof (rule bit_word_eqI)
  fix n assume "n < LENGTH(32)"
  then consider "n < 8" | "8 \<le> n \<and> n < 16" | "16 \<le> n \<and> n < 24" | "24 \<le> n \<and> n < 32"
    by fastforce
  then show "bit (Uint32 (be32 v)) n = bit v n"
    unfolding Uint32_def be32_def
    by cases (auto simp: bit_simps)
qed

lemma crc_byte_unfold:
  "crc_byte c b =
     crc_bit (crc_bit (crc_bit (crc_bit (crc_bit (crc_bit (crc_bit (crc_bit (c XOR ucast b))))))))"
  by (simp add: crc_byte_def eval_nat_numeral)

lemma crc_Write_append: "crc_Write (crc_Write c xs) ys = crc_Write c (xs @ ys)"
  by (simp add: crc_Write_def)

lemma crc_Write_Nil [simp]: "crc_Write c [] = c"
  by (simp add: crc_Write_def)

section \<open>Rules for running the model on a concrete file\<close>

lemma crc_Write_eval:
  "crc_Write c bs = foldl crc_byte (c XOR 0xffffffff) bs XOR 0xffffffff"
proof -
  have m: "(0xffffffff :: u32) = - 1" by simp
  have "NOT x = x XOR 0xffffffff" for x :: u32
    unfolding m by simp
  then show ?thesis by (simp add: crc_Write_def)
qed

lemma be32_eval:
  "be32 v = [ucast (drop_bit 24 v AND 0xff), ucast (drop_bit 16 v AND 0xff),
             ucast (drop_bit 8 v AND 0xff), ucast (v AND 0xff)]"
proof -
  have "(ucast (x AND 0xff) :: byte) = ucast x" for x :: u32
  proof (rule bit_word_eqI)
    fix n assume "n < LENGTH(8)"
    then have "n < 8" by simp
    moreover have m: "(0xff :: u32) = mask 8" by (simp add: mask_eq_exp_minus_1)
    ultimately show "bit (ucast (x AND 0xff) :: byte) n = bit (ucast x :: byte) n"
      unfolding m by (simp add: bit_simps)
  qed
  then show ?thesis by (simp add: be32_def)
qed

lemmas crc_bit_eval = crc_bit_def[of 0] crc_bit_def[of 1] crc_bit_def[of "numeral n"] for n

lemmas crc_byte_eval =
  crc_byte_unfold[of 0 0] crc_byte_unfold[of 0 1] crc_byte_unfold[of 0 "numeral b"]
  crc_byte_unfold[of 1 0] crc_byte_unfold[of 1 1] crc_byte_unfold[of 1 "numeral b"]
  crc_byte_unfold[of "numeral c" 0] crc_byte_unfold[of "numeral c" 1]
  crc_byte_unfold[of "numeral c" "numeral b"] for c b

lemma repack_loop_Inl:
  "chunk p = (Inl e, p1) \<Longrightarrow> repack_loop Z zo p = (if e = EOF then None else Some e, p1)"
  by (simp add: repack_loop.simps[of Z zo p])

lemma repack_loop_Inr:
  "chunk p = (Inr (len, kind), p1) \<Longrightarrow>
   repack_loop Z zo p =
     (if kind = IDAT then
        if rp_haveIDAT p1 then (Some ErrIDATOrder, p1)
        else
          (case handleIDAT Z zo p1 len of
             (Some e, p2) \<Rightarrow> (Some e, p2)
           | (None, p2) \<Rightarrow>
               let p3 = p2\<lparr>rp_haveIDAT := True\<rparr> in
               if \<not> rp_haveLastChunk p3 then
                 (case readTmp p3 4 of
                    (Some e, p4) \<Rightarrow> (Some e, p4)
                  | (None, p4) \<Rightarrow>
                      if Uint32 (take 4 (rp_tmp p4)) \<noteq> rp_crc p4
                      then (Some ErrIDATChecksum, p4)
                      else repack_loop Z zo p4)
               else
                 let ulen = Uint32 (take 4 (rp_tmp p3)) in
                 if ulen > maxChunkLen then (Some ErrChunkTooBig, p3)
                 else
                   (case handleAnyChunk p3 (unat ulen) of
                      (Some e, p5) \<Rightarrow> (Some e, p5)
                    | (None, p5) \<Rightarrow> repack_loop Z zo p5))
      else
        (case handleAnyChunk p1 len of
           (Some e, p5) \<Rightarrow> (Some e, p5)
         | (None, p5) \<Rightarrow> repack_loop Z zo p5))"
  by (simp add: repack_loop.simps[of Z zo p])

lemma io_Copy_None:
  "Reader_Read Z zo q 32768 = ((bs, None), q1) \<Longrightarrow>
   io_Copy Z zo q acc = io_Copy Z zo q1 (acc @ bs)"
  by (subst io_Copy.simps) simp

lemma io_Copy_Some:
  "Reader_Read Z zo q 32768 = ((bs, Some e), q1) \<Longrightarrow>
   io_Copy Z zo q acc = Some (if e = EOF then None else Some e, acc @ bs)"
  by (subst io_Copy.simps) simp

lemmas run_consts = pngHeader_def IHDR_def IDAT_def IEND_def maxChunkLen_def crc_Reset_def
  bufSize2_def ihdr1_def idat_in1_def idat_flushed1_def idat_closed1_def png1_def chunk_bytes_def
  chunk_crc_def

lemmas run_bytes = ReadFull_def srcRead_def fill_def Uint32_def be32_eval crc_Write_eval
  crc_byte_eval crc_bit_eval Let_def

lemmas run_codec = zlibStore_def sw_Write_def sw_Flush_def sw_Close_def sw_header_def
  sw_pending_def storedBlock_def adler_byte_def adler32_def inflateStored_def zlibHeaderOk_def
  storedBlocks.simps noEOF_def

lemmas run_repacker = Repack_def repack_def newRepacker_def readTmp_def chunk_def verifyCrc_def
  handleAnyChunk_def header_def Read_def idatNext.simps emitIDAT_def handleIDAT_def
  repack_loop_Inl repack_loop_Inr

lemmas run_reader = Repack2_def NewReader_def readTmp2_def chunkHeader_def verifyCrc2_def
  verifyHeader_def idatNext2.simps idatReader_Read_def handleChunkData_def handleIDAT2_def
  refill_def Reader_Read.simps io_Copy_None io_Copy_Some

section \<open>The small file, byte by byte\<close>

lemma png1_bytes:
  "png1 =
    [0x89, 0x50, 0x4E, 0x47, 0x0D, 0x0A, 0x1A, 0x0A, 0x00, 0x00, 0x00, 0x0D, 0x49, 0x48,
     0x44, 0x52, 0x00, 0x00, 0x00, 0x01, 0x00, 0x00, 0x00, 0x01, 0x08, 0x00, 0x00, 0x00,
     0x00, 0x3A, 0x7E, 0x9B, 0x55, 0x00, 0x00, 0x00, 0x0C, 0x49, 0x44, 0x41, 0x54, 0x78,
     0x01, 0x01, 0x01, 0x00, 0xFE, 0xFF, 0x61, 0x00, 0x62, 0x00, 0x62, 0xCD, 0xF5, 0x1A,
     0x37, 0x00, 0x00, 0x00, 0x00, 0x49, 0x45, 0x4E, 0x44, 0xAE, 0x42, 0x60, 0x82]"
  by (simp add: run_consts run_bytes)

lemma out_flushed_bytes:
  "pngHeader @ chunk_bytes IHDR ihdr1 @ chunk_bytes IDAT idat_flushed1 @ chunk_bytes IEND [] =
    [0x89, 0x50, 0x4E, 0x47, 0x0D, 0x0A, 0x1A, 0x0A, 0x00, 0x00, 0x00, 0x0D, 0x49, 0x48,
     0x44, 0x52, 0x00, 0x00, 0x00, 0x01, 0x00, 0x00, 0x00, 0x01, 0x08, 0x00, 0x00, 0x00,
     0x00, 0x3A, 0x7E, 0x9B, 0x55, 0x00, 0x00, 0x00, 0x0D, 0x49, 0x44, 0x41, 0x54, 0x78,
     0x01, 0x00, 0x01, 0x00, 0xFE, 0xFF, 0x61, 0x00, 0x00, 0x00, 0xFF, 0xFF, 0xD3, 0x3E,
     0x44, 0x0A, 0x00, 0x00, 0x00, 0x00, 0x49, 0x45, 0x4E, 0x44, 0xAE, 0x42, 0x60, 0x82]"
  by (simp add: run_consts run_bytes)

lemma out_closed_bytes:
  "pngHeader @ chunk_bytes IHDR ihdr1 @ chunk_bytes IDAT idat_closed1 @ chunk_bytes IEND [] =
    [0x89, 0x50, 0x4E, 0x47, 0x0D, 0x0A, 0x1A, 0x0A, 0x00, 0x00, 0x00, 0x0D, 0x49, 0x48,
     0x44, 0x52, 0x00, 0x00, 0x00, 0x01, 0x00, 0x00, 0x00, 0x01, 0x08, 0x00, 0x00, 0x00,
     0x00, 0x3A, 0x7E, 0x9B, 0x55, 0x00, 0x00, 0x00, 0x16, 0x49, 0x44, 0x41, 0x54, 0x78,
     0x01, 0x00, 0x01, 0x00, 0xFE, 0xFF, 0x61, 0x00, 0x00, 0x00, 0xFF, 0xFF, 0x01, 0x00,
     0x00, 0xFF, 0xFF, 0x00, 0x62, 0x00, 0x62, 0x63, 0x32, 0x85, 0x90, 0x00, 0x00, 0x00,
     0x00, 0x49, 0x45, 0x4E, 0x44, 0xAE, 0x42, 0x60, 0x82]"
  by (simp add: run_consts run_bytes)

section \<open>The first file, step by step\<close>

lemma readTmp_ok:
  "rp_r p = bs @ rest \<Longrightarrow> length bs = n \<Longrightarrow> 0 < n \<Longrightarrow>
   readTmp p n = (None, p\<lparr>rp_r := rest, rp_tmp := bs @ drop n (rp_tmp p)\<rparr>)"
  by (auto simp: readTmp_def ReadFull_def fill_def)

lemma chunk_ok:
  assumes "rp_r p = be32 L @ ty @ rest" "length ty = 4" "L \<le> maxChunkLen"
  shows "chunk p = (Inr (unat L, ty),
           p\<lparr>rp_r := rest, rp_tmp := be32 L @ ty @ drop 8 (rp_tmp p),
             rp_crc := crc_Write crc_Reset ty\<rparr>)"
proof -
  have "rp_r p = (be32 L @ ty) @ rest" using assms by simp
  from readTmp_ok[OF this, of 8] assms
  show ?thesis by (simp add: chunk_def Let_def)
qed

lemma chunk_big:
  assumes "rp_r p = be32 L @ ty @ rest" "length ty = 4" "L > maxChunkLen"
  shows "chunk p = (Inl ErrChunkTooBig,
           p\<lparr>rp_r := rest, rp_tmp := be32 L @ ty @ drop 8 (rp_tmp p)\<rparr>)"
proof -
  have "rp_r p = (be32 L @ ty) @ rest" using assms by simp
  from readTmp_ok[OF this, of 8] assms
  show ?thesis by (simp add: chunk_def Let_def)
qed















lemma readTmp_w: "rp_w (snd (readTmp p n)) = rp_w p"
  by (simp add: readTmp_def split: prod.splits)

lemma idatNext_w: "rp_w (snd (idatNext p)) = rp_w p"
proof (induction p rule: idatNext.induct)
  case (1 p)
  show ?case
  proof (cases "rp_idatLength p \<noteq> 0")
    case True
    then show ?thesis by (simp add: idatNext.simps[of p])
  next
    case False
    note z = this
    obtain e1 q1 where r1: "readTmp p 4 = (e1, q1)" by (cases "readTmp p 4")
    obtain e2 q2 where r2: "readTmp q1 8 = (e2, q2)" by (cases "readTmp q1 8")
    have w1: "rp_w q1 = rp_w p" using readTmp_w[of p 4] r1 by simp
    have w2: "rp_w q2 = rp_w q1" using readTmp_w[of q1 8] r2 by simp
    show ?thesis
    proof (cases "e1 = None \<and> Uint32 (take 4 (rp_tmp q1)) = rp_crc q1 \<and> e2 = None
                  \<and> take 4 (drop 4 (rp_tmp q2)) = IDAT")
      case True
      then have "rp_w (snd (idatNext (q2\<lparr>rp_idatLength := Uint32 (take 4 (rp_tmp q2)),
                   rp_crc := crc_Write crc_Reset (take 4 (drop 4 (rp_tmp q2)))\<rparr>))) = rp_w q2"
        using "1.IH"[OF z r1[symmetric] _ _ r2[symmetric] _ refl] by simp
      with True z r1 r2 w1 w2 show ?thesis by (simp add: idatNext.simps[of p] Let_def)
    next
      case False
      with z r1 r2 w1 w2 show ?thesis
        by (auto simp add: idatNext.simps[of p] Let_def split: option.splits)
    qed
  qed
qed

lemma Read_w: "rp_w (snd (Read p n)) = rp_w p"
proof -
  obtain e p1 where N: "idatNext p = (e, p1)" by (cases "idatNext p")
  have "rp_w p1 = rp_w p" using idatNext_w[of p] N by simp
  with N show ?thesis
    by (auto simp: Read_def srcRead_def split: prod.splits option.splits)
qed

lemma runOpen_w: "rp_w (snd (runOpen zo p)) = rp_w p"
proof (induction zo arbitrary: p)
  case (ZOpenCall n k)
  obtain rr q where R: "Read p n = (rr, q)" by (cases "Read p n")
  have "rp_w (snd (runOpen (k rr) q)) = rp_w q" using ZOpenCall.IH by (simp add: rangeI)
  with Read_w[of p n] R show ?case by simp
qed simp_all

lemma emitIDAT_chunk: "emitIDAT crc_Reset b = chunk_bytes IDAT b"
  by (simp add: emitIDAT_def chunk_bytes_def chunk_crc_def)

lemma idatLoop_chunks:
  "\<exists>ds. rp_w (snd (idatLoop z Z zw [] crc_Reset p)) = rp_w p @ concat (map (chunk_bytes IDAT) ds)"
proof (induction z arbitrary: p zw)
  case (ZCall n k)
  obtain rr q where R: "Read p n = (rr, q)" by (cases "Read p n")
  have "\<exists>ds. rp_w (snd (idatLoop (k rr) Z zw [] crc_Reset q)) =
               rp_w q @ concat (map (chunk_bytes IDAT) ds)"
    by (rule ZCall.IH) (rule rangeI)
  then obtain ds where
    "rp_w (snd (idatLoop (k rr) Z zw [] crc_Reset q)) = rp_w q @ concat (map (chunk_bytes IDAT) ds)"
    by blast
  with Read_w[of p n] R show ?case by auto
next
  case (ZData bs z)
  show ?case
  proof (cases "length bs = 0")
    case True
    with ZData.IH[of zw p] show ?thesis by simp
  next
    case False
    obtain o1 zw1 where W: "zwWrite Z zw bs = (o1, zw1)" by (cases "zwWrite Z zw bs")
    obtain o2 zw2 where F: "zwFlush Z zw1 = (o2, zw2)" by (cases "zwFlush Z zw1")
    let ?p = "p\<lparr>rp_w := rp_w p @ emitIDAT crc_Reset (o1 @ o2)\<rparr>"
    from ZData.IH[of zw2 ?p] obtain ds where
      "rp_w (snd (idatLoop z Z zw2 [] crc_Reset ?p)) = rp_w ?p @ concat (map (chunk_bytes IDAT) ds)"
      by auto
    with False W F have
      "rp_w (snd (idatLoop (ZData bs z) Z zw [] crc_Reset p)) =
         rp_w p @ concat (map (chunk_bytes IDAT) ((o1 @ o2) # ds))"
      by (simp add: emitIDAT_chunk)
    then show ?thesis by blast
  qed
next
  case (ZDone bs e)
  show ?case
  proof (cases "e \<noteq> EOF \<or> length bs = 0")
    case True
    then have "rp_w (snd (idatLoop (ZDone bs e) Z zw [] crc_Reset p)) =
                 rp_w p @ concat (map (chunk_bytes IDAT) [])" by auto
    then show ?thesis by blast
  next
    case False
    obtain o1 zw1 where W: "zwWrite Z zw bs = (o1, zw1)" by (cases "zwWrite Z zw bs")
    obtain o2 zw2 where F: "zwFlush Z zw1 = (o2, zw2)" by (cases "zwFlush Z zw1")
    from False W F have
      "rp_w (snd (idatLoop (ZDone bs e) Z zw [] crc_Reset p)) =
         rp_w p @ concat (map (chunk_bytes IDAT) [o1 @ o2])"
      by (simp add: emitIDAT_chunk)
    then show ?thesis by blast
  qed
qed

lemma handleIDAT_chunks:
  "\<exists>ds. rp_w (snd (handleIDAT Z zo p len)) = rp_w p @ concat (map (chunk_bytes IDAT) ds)"
proof -
  let ?p = "p\<lparr>rp_idatLength := word_of_nat len\<rparr>"
  obtain r p1 where O: "runOpen zo ?p = (r, p1)" by (cases "runOpen zo ?p")
  have w1: "rp_w p1 = rp_w p" using runOpen_w[of zo ?p] O by simp
  show ?thesis
  proof (cases r)
    case (Inl e)
    with O w1 have "rp_w (snd (handleIDAT Z zo p len)) = rp_w p @ concat (map (chunk_bytes IDAT) [])"
      by (simp add: handleIDAT_def)
    then show ?thesis by blast
  next
    case (Inr zr)
    show ?thesis
    proof (cases "NewWriterLevel Z (rp_level p1)")
      case (Inl e)
      with O w1 Inr have
        "rp_w (snd (handleIDAT Z zo p len)) = rp_w p @ concat (map (chunk_bytes IDAT) [])"
        by (simp add: handleIDAT_def)
      then show ?thesis by blast
    next
      case (Inr zw)
      from idatLoop_chunks[of zr Z zw p1] obtain ds where
        "rp_w (snd (idatLoop zr Z zw [] crc_Reset p1)) = rp_w p1 @ concat (map (chunk_bytes IDAT) ds)"
        by blast
      with O w1 \<open>r = Inr zr\<close> Inr show ?thesis by (auto simp: handleIDAT_def)
    qed
  qed
qed

lemma chunk_bytes_parse:
  assumes "length ty = 4" "length d < 2 ^ 32"
  shows "unat (Uint32 (take 4 (chunk_bytes ty d))) = length d"
    and "take 4 (drop 4 (chunk_bytes ty d)) = ty"
    and "take (length d) (drop 8 (chunk_bytes ty d)) = d"
    and "Uint32 (drop (8 + length d) (chunk_bytes ty d)) = chunk_crc ty d"
  using assms by (simp_all add: chunk_bytes_def unat_of_nat)



lemma loop_big:
  assumes "rp_r p = be32 L @ ty @ rest" "length ty = 4" "L > maxChunkLen"
  shows "repack_loop Z zo p =
           (Some ErrChunkTooBig, p\<lparr>rp_r := rest, rp_tmp := be32 L @ ty @ drop 8 (rp_tmp p)\<rparr>)"
  using repack_loop_Inl[OF chunk_big[OF assms]] by simp

lemma length_IDAT [simp]: "length IDAT = 4"
  by (simp add: IDAT_def)

lemma idatNext_reads:
  assumes z: "rp_idatLength p = 0"
    and r: "rp_r p = be32 (rp_crc p) @ be32 L @ ty @ rest" and ty: "length ty = 4"
  shows "idatNext p =
     (let p3 = p\<lparr>rp_r := rest, rp_tmp := be32 L @ ty @ drop 8 (rp_tmp p), rp_idatLength := L\<rparr>
      in if ty \<noteq> IDAT then (Some EOF, p3\<lparr>rp_haveLastChunk := True\<rparr>)
         else idatNext (p3\<lparr>rp_crc := crc_Write crc_Reset ty\<rparr>))"
proof -
  let ?p1 = "p\<lparr>rp_r := be32 L @ ty @ rest, rp_tmp := be32 (rp_crc p) @ drop 4 (rp_tmp p)\<rparr>"
  have s1: "readTmp p 4 = (None, ?p1)"
    by (rule readTmp_ok[OF r]) simp_all
  let ?p2 = "?p1\<lparr>rp_r := rest, rp_tmp := (be32 L @ ty) @ drop 8 (rp_tmp ?p1)\<rparr>"
  have s2: "readTmp ?p1 8 = (None, ?p2)"
    by (rule readTmp_ok) (use ty in simp_all)
  have "idatNext p =
        (let p3 = ?p2\<lparr>rp_idatLength := Uint32 (take 4 (rp_tmp ?p2))\<rparr> in
         if take 4 (drop 4 (rp_tmp p3)) \<noteq> IDAT
         then (Some EOF, p3\<lparr>rp_haveLastChunk := True\<rparr>)
         else idatNext (p3\<lparr>rp_crc := crc_Write crc_Reset (take 4 (drop 4 (rp_tmp p3)))\<rparr>))"
  proof -
    have c: "Uint32 (take 4 (rp_tmp ?p1)) = rp_crc ?p1" by simp
    show ?thesis
      by (subst idatNext.simps)
         (simp only: z s1 s2 c prod.case option.case simp_thms if_False)
  qed
  also have "\<dots> =
     (let p3 = p\<lparr>rp_r := rest, rp_tmp := be32 L @ ty @ drop 8 (rp_tmp p), rp_idatLength := L\<rparr>
      in if ty \<noteq> IDAT then (Some EOF, p3\<lparr>rp_haveLastChunk := True\<rparr>)
         else idatNext (p3\<lparr>rp_crc := crc_Write crc_Reset ty\<rparr>))"
    using ty by (simp add: Let_def)
  finally show ?thesis .
qed

lemma Read_big_idat:
  assumes "rp_idatLength p = 0" "rp_r p = be32 (rp_crc p) @ be32 L @ IDAT @ rest"
    "L > maxChunkLen" "0 < n"
  shows "Read p n =
           (([], Some ErrIDATChunkTooBig),
            p\<lparr>rp_r := rest, rp_tmp := be32 L @ IDAT @ drop 8 (rp_tmp p),
              rp_idatLength := L, rp_crc := crc_Write crc_Reset IDAT\<rparr>)"
proof -
  let ?p = "p\<lparr>rp_r := rest, rp_tmp := be32 L @ IDAT @ drop 8 (rp_tmp p),
              rp_idatLength := L, rp_crc := crc_Write crc_Reset IDAT\<rparr>"
  have nz: "L \<noteq> 0" using assms(3) by (auto simp: maxChunkLen_def)
  have "idatNext p = idatNext ?p"
    using idatNext_reads[of p L IDAT rest] assms by (simp add: Let_def)
  also have "\<dots> = (None, ?p)" using nz by (simp add: idatNext.simps[of ?p])
  finally show ?thesis using assms by (simp add: Read_def)
qed

lemma Read_nonidat:
  assumes "rp_idatLength p = 0" "rp_r p = be32 (rp_crc p) @ be32 L @ ty @ rest"
    "length ty = 4" "ty \<noteq> IDAT" "0 < n"
  shows "Read p n =
           (([], Some EOF),
            p\<lparr>rp_r := rest, rp_tmp := be32 L @ ty @ drop 8 (rp_tmp p),
              rp_idatLength := L, rp_haveLastChunk := True\<rparr>)"
  using idatNext_reads[of p L ty rest] assms by (simp add: Read_def Let_def)

lemma loop_idat_tail:
  assumes c: "chunk p = (Inr (len, IDAT), p1)" and n: "\<not> rp_haveIDAT p1"
    and h: "handleIDAT Z zo p1 len = (None, p2)"
    and l: "rp_haveLastChunk p2" and b: "Uint32 (take 4 (rp_tmp p2)) > maxChunkLen"
  shows "repack_loop Z zo p = (Some ErrChunkTooBig, p2\<lparr>rp_haveIDAT := True\<rparr>)"
  using n h l b by (simp add: repack_loop_Inr[OF c] Let_def)



lemma length_consts [simp]: "length pngHeader = 8" "length IHDR = 4"
  by (simp_all add: pngHeader_def IHDR_def)

lemma header_bad_first:
  assumes r: "rp_r p = pngHeader @ be32 L @ ty @ rest" and ty: "length ty = 4"
    and L: "L \<le> maxChunkLen" and bad: "ty \<noteq> IHDR \<or> L \<noteq> 13"
  shows "header p =
           (Some (if ty \<noteq> IHDR then ErrMissingIHDR else ErrIHDRLength),
            p\<lparr>rp_r := rest, rp_tmp := be32 L @ ty @ drop 8 (rp_tmp p),
              rp_w := rp_w p @ pngHeader, rp_crc := crc_Write crc_Reset ty\<rparr>)"
proof -
  let ?p1 = "p\<lparr>rp_r := be32 L @ ty @ rest, rp_tmp := pngHeader @ drop 8 (rp_tmp p)\<rparr>"
  have s1: "readTmp p 8 = (None, ?p1)"
    by (rule readTmp_ok[OF r]) simp_all
  let ?p2 = "?p1\<lparr>rp_w := rp_w p @ pngHeader\<rparr>"
  let ?p3 = "?p2\<lparr>rp_r := rest, rp_tmp := be32 L @ ty @ drop 8 (rp_tmp ?p2),
                rp_crc := crc_Write crc_Reset ty\<rparr>"
  have s3: "chunk ?p2 = (Inr (unat L, ty), ?p3)"
    by (rule chunk_ok) (use ty L in simp_all)
  have u: "unat L \<noteq> 13" if "L \<noteq> 13"
    using that by (simp add: word_unat_eq_iff)
  show ?thesis
    unfolding header_def s1
    apply (simp add: Let_def)
    apply (insert s3 bad u)
    apply (auto simp: Let_def)
    done
qed

lemma header_bad_method:
  assumes r: "rp_r p = pngHeader @ be32 13 @ IHDR @ ih @ rest" and ih: "length ih = 13"
    and bad: "ih ! 10 \<noteq> 0"
  shows "header p =
           (Some ErrCompressionMethod,
            p\<lparr>rp_r := rest, rp_tmp := ih @ drop 13 (rp_tmp p),
              rp_w := rp_w p @ pngHeader @ be32 13 @ IHDR,
              rp_crc := crc_Write crc_Reset IHDR\<rparr>)"
proof -
  let ?p1 = "p\<lparr>rp_r := be32 13 @ IHDR @ ih @ rest, rp_tmp := pngHeader @ drop 8 (rp_tmp p)\<rparr>"
  have s1: "readTmp p 8 = (None, ?p1)"
    by (rule readTmp_ok[OF r]) simp_all
  let ?p2 = "?p1\<lparr>rp_w := rp_w p @ pngHeader\<rparr>"
  let ?p3 = "?p2\<lparr>rp_r := ih @ rest, rp_tmp := be32 13 @ IHDR @ drop 8 (rp_tmp ?p2),
                rp_crc := crc_Write crc_Reset IHDR\<rparr>"
  have s3: "chunk ?p2 = (Inr (13, IHDR), ?p3)"
    using chunk_ok[of ?p2 13 IHDR "ih @ rest"] by (simp add: maxChunkLen_def)
  let ?p4 = "?p3\<lparr>rp_w := rp_w ?p3 @ take 8 (rp_tmp ?p3)\<rparr>"
  let ?p5 = "?p4\<lparr>rp_r := rest, rp_tmp := ih @ drop 13 (rp_tmp ?p4)\<rparr>"
  have s5: "readTmp ?p4 13 = (None, ?p5)"
    by (rule readTmp_ok) (use ih in simp_all)
  have t10: "rp_tmp ?p5 ! 10 \<noteq> 0" using ih bad by (simp add: nth_append)
  show ?thesis
    unfolding header_def s1
    apply (simp add: Let_def)
    apply (simp only: s3)
    apply (simp add: Let_def ih)
    apply (insert s5 t10)
    apply (simp add: Let_def ih)
    done
qed

section \<open>The second file, step by step\<close>

definition atHead :: "('e, 'y) Reader_scheme \<Rightarrow> byte list \<Rightarrow> bool" where
  "atHead q rest \<longleftrightarrow> rd_stage q = stChunkHead \<and> rd_w q = [] \<and> \<not> rd_eof q \<and> rd_r q = rest"

definition kept :: "('e, 'y) Reader_scheme \<Rightarrow> ('e, 'y) Reader_scheme \<Rightarrow> bool" where
  "kept q q1 \<longleftrightarrow>
     rd_level q1 = rd_level q \<and> rd_readNonIDAT q1 = rd_readNonIDAT q
     \<and> rd_processedIDAT q1 = rd_processedIDAT q \<and> rd_zr q1 = rd_zr q \<and> rd_zw q1 = rd_zw q
     \<and> rd_zbuf q1 = rd_zbuf q \<and> rd_zcrc q1 = rd_zcrc q \<and> rd_eof q1 = rd_eof q
     \<and> drop 8 (rd_tmp q1) = drop 8 (rd_tmp q) \<and> Reader.more q1 = Reader.more q"

lemma kept_refl [simp]: "kept q q"
  by (simp add: kept_def)






lemma readTmp2_reads:
  "rd_r q = bs @ rest \<Longrightarrow> length bs = n \<Longrightarrow> 0 < n \<Longrightarrow>
   readTmp2 q n = (None, q\<lparr>rd_r := rest, rd_tmp := bs @ drop n (rd_tmp q)\<rparr>)"
  by (auto simp: readTmp2_def ReadFull_def fill_def)

lemma chunkHeader_ok:
  assumes "rd_r q = be32 L @ ty @ rest" "length ty = 4" "L \<le> maxChunkLen"
  shows "chunkHeader q = (Inr (unat L, ty),
           (if ty \<noteq> IDAT
            then q\<lparr>rd_r := rest, rd_tmp := be32 L @ ty @ drop 8 (rd_tmp q),
                   rd_w := rd_w q @ be32 L @ ty\<rparr>
            else q\<lparr>rd_r := rest, rd_tmp := be32 L @ ty @ drop 8 (rd_tmp q)\<rparr>)
             \<lparr>rd_crc := crc_Write crc_Reset ty\<rparr>)"
proof -
  have "rd_r q = (be32 L @ ty) @ rest" using assms by simp
  from readTmp2_reads[OF this, of 8] assms
  show ?thesis by (simp add: chunkHeader_def Let_def)
qed

lemma chunkHeader_big:
  assumes "rd_r q = be32 L @ ty @ rest" "length ty = 4" "L > maxChunkLen"
  shows "chunkHeader q = (Inl ErrChunkTooBig,
           q\<lparr>rd_r := rest, rd_tmp := be32 L @ ty @ drop 8 (rd_tmp q)\<rparr>)"
proof -
  have "rd_r q = (be32 L @ ty) @ rest" using assms by simp
  from readTmp2_reads[OF this, of 8] assms
  show ?thesis by (simp add: chunkHeader_def Let_def)
qed










lemma read_error:
  assumes "rd_w q = []" "\<not> rd_eof q" "refill Z zo q = (Some e, q1)" "e \<noteq> EOF"
  shows "Reader_Read Z zo q n = (([], Some e), q1)"
  by (subst Reader_Read.simps) (simp add: assms)






lemma NewReader_fields [simp]:
  "rd_r (NewReader src lvl) = src" "rd_w (NewReader src lvl) = []"
  "rd_stage (NewReader src lvl) = stStart" "\<not> rd_eof (NewReader src lvl)"
  "rd_tmp (NewReader src lvl) = replicate 13 0"
  by (simp_all add: NewReader_def)


lemma copy_error:
  assumes "rd_w q = []" "\<not> rd_eof q" "refill Z zo q = (Some e, q1)" "e \<noteq> EOF"
  shows "io_Copy Z zo q acc = Some (Some e, acc)"
  using io_Copy_Some[OF read_error[OF assms, of 32768], of acc] assms(4) by simp

lemma copy_big:
  assumes h: "atHead q (be32 L @ ty @ rest)" and ty: "length ty = 4" and L: "L > maxChunkLen"
  shows "io_Copy Z zo q acc = Some (Some ErrChunkTooBig, acc)"
proof -
  from h have q: "rd_stage q = stChunkHead" "rd_w q = []" "\<not> rd_eof q"
    "rd_r q = be32 L @ ty @ rest" by (simp_all add: atHead_def)
  have "refill Z zo q =
          (Some ErrChunkTooBig, q\<lparr>rd_r := rest, rd_tmp := be32 L @ ty @ drop 8 (rd_tmp q)\<rparr>)"
    using q chunkHeader_big[OF q(4) ty L] by (simp add: refill_def)
  from copy_error[OF q(2,3) this] show ?thesis by simp
qed



section \<open>The image-data run within the whole run\<close>


text \<open>The same point in the second file: the header of the image-data chunk has been
  read, the data stage comes next.\<close>

definition idatEntry2 :: "byte list \<Rightarrow> u32 \<Rightarrow> byte list \<Rightarrow> int \<Rightarrow> 'e Reader" where
  "idatEntry2 ih L src lvl =
     \<lparr>rd_r = src, rd_w = [], rd_level = lvl, rd_tmp = be32 L @ IDAT @ drop 8 ih,
      rd_crc = crc_Write crc_Reset IDAT, rd_readNonIDAT = False, rd_processedIDAT = False,
      rd_stage = stChunkData, rd_chunkLen = unat L, rd_chunkType = IDAT, rd_zr = None,
      rd_zw = None, rd_zbuf = [], rd_zcrc = crc_Reset, rd_eof = False\<rparr>"





section \<open>The library's reader and the hand-over flag\<close>








section \<open>The image-data run of the small file\<close>



lemma idat_closed_chunk_bytes:
  "chunk_bytes IDAT idat_closed1 =
     [0x00, 0x00, 0x00, 0x16, 0x49, 0x44, 0x41, 0x54, 0x78,
     0x01, 0x00, 0x01, 0x00, 0xFE, 0xFF, 0x61, 0x00, 0x00, 0x00, 0xFF, 0xFF, 0x01, 0x00,
     0x00, 0xFF, 0xFF, 0x00, 0x62, 0x00, 0x62, 0x63, 0x32, 0x85, 0x90]"
  by (simp add: run_consts run_bytes)



section \<open>Whole runs around the image data\<close>




text \<open>The second file at the small file's image data: the stage after the codec has
  been opened, and the one call of \<open>handleIDAT\<close> that ends the stream.\<close>

lemma png1_stage_idat:
  "\<exists>q. refill zlibStore (storeOpen 3 [])
          (idatEntry2 ihdr1 12 (idat_in1 @ tail) 0) = (None, q)
     \<and> rd_stage q = stIDAT \<and> rd_w q = [] \<and> \<not> rd_eof q
     \<and> (\<exists>q1. handleIDAT2 zlibStore q = (Some EOF, q1) \<and> \<not> rd_readNonIDAT q1
            \<and> rd_r q1 = tail \<and> rd_crc q1 = chunk_crc IDAT idat_in1
            \<and> rd_w q1 = chunk_bytes IDAT idat_closed1)"
  unfolding idat_closed_chunk_bytes
  apply (simp add: idatEntry2_def)
  apply (simp add: run_consts run_bytes run_codec run_reader)
  done
















text \<open>Reading through \<open>idatReader\<close> leaves the deflating writer, its buffer and the
  accumulator of the emitted chunks alone.\<close>

definition same_codec :: "('e, 'y) Reader_scheme \<Rightarrow> ('e, 'y) Reader_scheme \<Rightarrow> bool" where
  "same_codec q q1 \<longleftrightarrow> rd_zbuf q1 = rd_zbuf q \<and> rd_zcrc q1 = rd_zcrc q \<and> rd_zw q1 = rd_zw q"

lemma same_codec_readTmp2: "same_codec q (snd (readTmp2 q n))"
  by (simp add: same_codec_def readTmp2_def split: prod.splits)

lemma idatNext2_codec: "same_codec q (snd (idatNext2 q))"
proof (induction q rule: idatNext2.induct)
  case (1 q)
  show ?case
  proof (cases "rd_chunkLen q \<noteq> 0")
    case True
    then show ?thesis by (simp add: idatNext2.simps[of q] same_codec_def)
  next
    case False
    note z = this
    obtain e1 q1 where r1: "readTmp2 q 4 = (e1, q1)" by (cases "readTmp2 q 4")
    obtain e2 q2 where r2: "readTmp2 q1 8 = (e2, q2)" by (cases "readTmp2 q1 8")
    have f1: "same_codec q q1" using same_codec_readTmp2[of q 4] r1 by simp
    have f2: "same_codec q1 q2" using same_codec_readTmp2[of q1 8] r2 by simp
    let ?q4 = "q2\<lparr>rd_chunkLen := unat (Uint32 (take 4 (rd_tmp q2))),
                  rd_chunkType := take 4 (drop 4 (rd_tmp q2)),
                  rd_crc := crc_Write crc_Reset (take 4 (drop 4 (rd_tmp q2)))\<rparr>"
    show ?thesis
    proof (cases "e1 = None \<and> Uint32 (take 4 (rd_tmp q1)) = rd_crc q1 \<and> e2 = None
                  \<and> \<not> Uint32 (take 4 (rd_tmp q2)) > maxChunkLen
                  \<and> \<not> unat (Uint32 (take 4 (rd_tmp q2))) > unat maxChunkLen
                  \<and> take 4 (drop 4 (rd_tmp q2)) = IDAT")
      case True
      then have "same_codec ?q4 (snd (idatNext2 ?q4))"
        using "1.IH"[OF z r1[symmetric] _ _ r2[symmetric] _ refl _ refl _ refl] by simp
      with True z r1 r2 f1 f2 show ?thesis
        by (simp add: idatNext2.simps[of q] Let_def same_codec_def)
    next
      case False
      with z r1 r2 f1 f2 show ?thesis
        by (auto simp add: idatNext2.simps[of q] Let_def same_codec_def split: option.splits)
    qed
  qed
qed

lemma idatReader_Read_codec: "same_codec q (snd (idatReader_Read q n))"
  using idatNext2_codec[of q]
  by (auto simp: idatReader_Read_def same_codec_def srcRead_def split: prod.splits option.splits)

lemma zrRead_codec: "same_codec q (snd (zrRead z q))"
proof (induction z arbitrary: q)
  case (ZCall n k)
  obtain rr q1 where R: "idatReader_Read q n = (rr, q1)" by (cases "idatReader_Read q n")
  have "same_codec q1 (snd (zrRead (k rr) q1))" using ZCall.IH by (simp add: rangeI)
  with idatReader_Read_codec[of q n] R show ?case by (simp add: same_codec_def)
qed (simp_all add: same_codec_def)

text \<open>What one call of the second file's \<open>handleIDAT\<close> appends to \<open>p.w\<close> is one
  image-data chunk or nothing, and the buffer and the accumulator are empty again.\<close>

lemma handleIDAT2_chunks:
  assumes "rd_zbuf q = []" "rd_zcrc q = crc_Reset"
  shows "\<exists>ds. rd_w (snd (handleIDAT2 Z q)) = rd_w q @ concat (map (chunk_bytes IDAT) ds)
           \<and> length ds \<le> 1
           \<and> rd_zbuf (snd (handleIDAT2 Z q)) = [] \<and> rd_zcrc (snd (handleIDAT2 Z q)) = crc_Reset"
proof (cases "rd_zr q")
  case None
  with assms have "rd_w (snd (handleIDAT2 Z q)) = rd_w q @ concat (map (chunk_bytes IDAT) [])
           \<and> length ([] :: byte list list) \<le> 1
           \<and> rd_zbuf (snd (handleIDAT2 Z q)) = [] \<and> rd_zcrc (snd (handleIDAT2 Z q)) = crc_Reset"
    by (simp add: handleIDAT2_def)
  then show ?thesis by blast
next
  case (Some z)
  obtain bs rerr z1 q0 where R: "zrRead z q = ((bs, rerr, z1), q0)"
    by (cases "zrRead z q") auto
  from zrRead_flags[of q z] zrRead_codec[of q z] R assms
  have f: "rd_w q0 = rd_w q" "rd_zbuf q0 = []" "rd_zcrc q0 = crc_Reset"
    by (simp_all add: same_flags_def same_codec_def)
  let ?q1 = "q0\<lparr>rd_zr := Some z1\<rparr>"
  show ?thesis
  proof (cases "(rerr \<noteq> None \<and> rerr \<noteq> Some EOF) \<or> rd_zw ?q1 = None")
    case True
    with Some R f have
      "rd_w (snd (handleIDAT2 Z q)) = rd_w q @ concat (map (chunk_bytes IDAT) [])
           \<and> length ([] :: byte list list) \<le> 1
           \<and> rd_zbuf (snd (handleIDAT2 Z q)) = [] \<and> rd_zcrc (snd (handleIDAT2 Z q)) = crc_Reset"
      by (auto simp: handleIDAT2_def Let_def)
    then show ?thesis by blast
  next
    case False
    then obtain zw where zw: "rd_zw ?q1 = Some zw" by auto
    obtain o1 zw1 where W: "zwWrite Z zw bs = (o1, zw1)" by (cases "zwWrite Z zw bs")
    obtain o2 zw2 where F: "zwFlush Z zw1 = (o2, zw2)" by (cases "zwFlush Z zw1")
    let ?b = "o1 @ o2 @ (if rerr = Some EOF then zwClose Z zw2 else [])"
    from False Some R f zw W F have
      "rd_w (snd (handleIDAT2 Z q)) = rd_w q @ concat (map (chunk_bytes IDAT) [?b])
           \<and> length [?b] \<le> 1
           \<and> rd_zbuf (snd (handleIDAT2 Z q)) = [] \<and> rd_zcrc (snd (handleIDAT2 Z q)) = crc_Reset"
      by (auto simp: handleIDAT2_def Let_def chunk_bytes_def chunk_crc_def)
    then show ?thesis by blast
  qed
qed

lemma png1_stage_codec:
  "rd_zbuf (snd (refill zlibStore (storeOpen 3 []) (idatEntry2 ihdr1 12 (idat_in1 @ tail) 0))) = []
   \<and> rd_zcrc (snd (refill zlibStore (storeOpen 3 []) (idatEntry2 ihdr1 12 (idat_in1 @ tail) 0))) =
       crc_Reset"
  apply (simp add: idatEntry2_def)
  apply (simp add: run_consts run_bytes run_codec run_reader)
  done

section \<open>The claims\<close>

text \<open>C1. At the file \<open>png1\<close> and level 0 the first file returns without error, but
  the image data it has written is the zlib stream without its final block and checksum:
  read back, it ends before the stream does, while the input's image data inflates to the
  byte \<open>0x61\<close>. The second file, which closes the deflating writer before it emits the
  last chunk, writes the complete stream.\<close>

theorem repack_leaves_stream_open:
  "Repack zlibStore (storeOpen 3 []) png1 0 =
     (None, pngHeader @ chunk_bytes IHDR ihdr1 @ chunk_bytes IDAT idat_flushed1
              @ chunk_bytes IEND [])
   \<and> inflateStored idat_in1 = ZOk [0x61]
   \<and> inflateStored idat_flushed1 = ZNeed
   \<and> Repack2 zlibStore (storeOpen 3 []) png1 0 =
     Some (None, pngHeader @ chunk_bytes IHDR ihdr1 @ chunk_bytes IDAT idat_closed1
              @ chunk_bytes IEND [])
   \<and> inflateStored idat_closed1 = ZOk [0x61]"
proof -
  have a: "Repack zlibStore (storeOpen 3 []) png1 0 =
     (None, pngHeader @ chunk_bytes IHDR ihdr1 @ chunk_bytes IDAT idat_flushed1
              @ chunk_bytes IEND [])"
    unfolding png1_bytes out_flushed_bytes
    by (simp add: run_consts run_bytes run_codec run_repacker)
  have b: "inflateStored idat_in1 = ZOk [0x61]"
    by (simp add: run_consts run_bytes run_codec)
  have c: "inflateStored idat_flushed1 = ZNeed"
    by (simp add: run_consts run_bytes run_codec)
  have d: "Repack2 zlibStore (storeOpen 3 []) png1 0 =
     Some (None, pngHeader @ chunk_bytes IHDR ihdr1 @ chunk_bytes IDAT idat_closed1
              @ chunk_bytes IEND [])"
    unfolding png1_bytes out_closed_bytes
    by (simp add: run_consts run_bytes run_codec run_reader)
  have e: "inflateStored idat_closed1 = ZOk [0x61]"
    by (simp add: run_consts run_bytes run_codec)
  from a b c d e show ?thesis by blast
qed

text \<open>C10. A read from the image-stream merger into a buffer of length zero returns no
  bytes and no error and leaves the whole state as it was, the source included; this
  holds for the merger of both files.\<close>

theorem merger_read_empty_buffer:
  "Read p 0 = (([], None), p) \<and> idatReader_Read q 0 = (([], None), q)"
  by (simp add: Read_def idatReader_Read_def)

lemma verifyHeader_bad_first:
  assumes r: "rd_r q = pngHeader @ be32 L @ ty @ rest" and ty: "length ty = 4"
    and L: "L \<le> maxChunkLen" and bad: "ty \<noteq> IHDR \<or> L \<noteq> 13"
  shows "fst (verifyHeader q) = Some (if ty \<noteq> IHDR then ErrMissingIHDR else ErrIHDRLength)"
proof -
  let ?p1 = "q\<lparr>rd_r := be32 L @ ty @ rest, rd_tmp := pngHeader @ drop 8 (rd_tmp q)\<rparr>"
  have s1: "readTmp2 q 8 = (None, ?p1)"
    by (rule readTmp2_reads[OF r]) simp_all
  let ?p2 = "?p1\<lparr>rd_w := rd_w q @ pngHeader\<rparr>"
  have s3: "fst (chunkHeader ?p2) = Inr (unat L, ty)"
    using chunkHeader_ok[of ?p2 L ty rest] ty L by simp
  obtain x q3 where c: "chunkHeader ?p2 = (x, q3)" by (cases "chunkHeader ?p2")
  with s3 have x: "x = Inr (unat L, ty)" by simp
  have u: "unat L \<noteq> 13" if "L \<noteq> 13"
    using that by (simp add: word_unat_eq_iff)
  show ?thesis
    unfolding verifyHeader_def s1
    apply (simp add: Let_def)
    apply (insert c x bad u)
    apply (auto simp: Let_def)
    done
qed

lemma verifyHeader_bad_method:
  assumes r: "rd_r q = pngHeader @ be32 13 @ IHDR @ ih @ rest" and ih: "length ih = 13"
    and bad: "ih ! 10 \<noteq> 0"
  shows "fst (verifyHeader q) = Some ErrCompressionMethod"
proof -
  let ?p1 = "q\<lparr>rd_r := be32 13 @ IHDR @ ih @ rest, rd_tmp := pngHeader @ drop 8 (rd_tmp q)\<rparr>"
  have s1: "readTmp2 q 8 = (None, ?p1)"
    by (rule readTmp2_reads[OF r]) simp_all
  let ?p2 = "?p1\<lparr>rd_w := rd_w q @ pngHeader\<rparr>"
  let ?p3 = "?p2\<lparr>rd_r := ih @ rest, rd_tmp := be32 13 @ IHDR @ drop 8 (rd_tmp ?p2),
                rd_w := rd_w ?p2 @ be32 13 @ IHDR, rd_crc := crc_Write crc_Reset IHDR\<rparr>"
  have ni: "IHDR \<noteq> IDAT" by (simp add: IHDR_def IDAT_def)
  have s3: "chunkHeader ?p2 = (Inr (13, IHDR), ?p3)"
    using chunkHeader_ok[of ?p2 13 IHDR "ih @ rest"] ni by (simp add: maxChunkLen_def)
  let ?p5 = "?p3\<lparr>rd_r := rest, rd_tmp := ih @ drop 13 (rd_tmp ?p3)\<rparr>"
  have s5: "readTmp2 ?p3 13 = (None, ?p5)"
    by (rule readTmp2_reads) (use ih in simp_all)
  have t10: "rd_tmp ?p5 ! 10 \<noteq> 0" using ih bad by (simp add: nth_append)
  show ?thesis
    unfolding verifyHeader_def s1
    apply (simp add: Let_def)
    apply (insert s3 s5 t10)
    apply (simp add: Let_def ih)
    done
qed

lemma Repack2_header_error:
  assumes "fst (verifyHeader (NewReader src lvl :: 'e Reader)) = Some e" "e \<noteq> EOF"
  shows "Repack2 (Z :: ('e, 'x) zlibw_scheme) zo src lvl = Some (Some e, [])"
proof -
  let ?q = "NewReader src lvl :: 'e Reader"
  obtain x q1 where v: "verifyHeader ?q = (x, q1)" by (cases "verifyHeader ?q")
  with assms have "refill Z zo ?q = (Some e, q1)" by (simp add: refill_def)
  from copy_error[OF _ _ this assms(2), of "[]"] show ?thesis
    by (simp add: Repack2_def)
qed

lemma header_big:
  assumes r: "rp_r p = pngHeader @ be32 L @ ty @ rest" and ty: "length ty = 4"
    and L: "L > maxChunkLen"
  shows "fst (header p) = Some ErrChunkTooBig \<and> rp_w (snd (header p)) = rp_w p @ pngHeader"
proof -
  let ?p1 = "p\<lparr>rp_r := be32 L @ ty @ rest, rp_tmp := pngHeader @ drop 8 (rp_tmp p)\<rparr>"
  have s1: "readTmp p 8 = (None, ?p1)"
    by (rule readTmp_ok[OF r]) simp_all
  let ?p2 = "?p1\<lparr>rp_w := rp_w p @ pngHeader\<rparr>"
  have s3: "chunk ?p2 = (Inl ErrChunkTooBig,
              ?p2\<lparr>rp_r := rest, rp_tmp := be32 L @ ty @ drop 8 (rp_tmp ?p2)\<rparr>)"
    by (rule chunk_big) (use ty L in simp_all)
  show ?thesis
    unfolding header_def s1
    apply (simp add: Let_def)
    apply (insert s3)
    apply (simp add: Let_def)
    done
qed

lemma verifyHeader_big:
  assumes r: "rd_r q = pngHeader @ be32 L @ ty @ rest" and ty: "length ty = 4"
    and L: "L > maxChunkLen"
  shows "fst (verifyHeader q) = Some ErrChunkTooBig"
proof -
  let ?p1 = "q\<lparr>rd_r := be32 L @ ty @ rest, rd_tmp := pngHeader @ drop 8 (rd_tmp q)\<rparr>"
  have s1: "readTmp2 q 8 = (None, ?p1)"
    by (rule readTmp2_reads[OF r]) simp_all
  let ?p2 = "?p1\<lparr>rd_w := rd_w q @ pngHeader\<rparr>"
  have s3: "chunkHeader ?p2 = (Inl ErrChunkTooBig,
              ?p2\<lparr>rd_r := rest, rd_tmp := be32 L @ ty @ drop 8 (rd_tmp ?p2)\<rparr>)"
    by (rule chunkHeader_big) (use ty L in simp_all)
  show ?thesis
    unfolding verifyHeader_def s1
    apply (simp add: Let_def)
    apply (insert s3)
    apply (simp add: Let_def)
    done
qed

lemma Repack_header_big:
  assumes ty: "length ty = 4" and L: "L > maxChunkLen"
  shows "Repack Z zo (pngHeader @ be32 L @ ty @ rest) lvl = (Some ErrChunkTooBig, pngHeader)"
    and "Repack2 Z zo (pngHeader @ be32 L @ ty @ rest) lvl = Some (Some ErrChunkTooBig, [])"
proof -
  let ?p = "newRepacker (pngHeader @ be32 L @ ty @ rest) lvl"
  obtain e p1 where h: "header ?p = (e, p1)" by (cases "header ?p")
  with header_big[of ?p L ty rest] ty L have "e = Some ErrChunkTooBig" "rp_w p1 = pngHeader"
    by (simp_all add: newRepacker_def)
  with h show "Repack Z zo (pngHeader @ be32 L @ ty @ rest) lvl = (Some ErrChunkTooBig, pngHeader)"
    by (simp add: Repack_def repack_def)
  show "Repack2 Z zo (pngHeader @ be32 L @ ty @ rest) lvl = Some (Some ErrChunkTooBig, [])"
    by (rule Repack2_header_error)
       (use verifyHeader_big[of "NewReader (pngHeader @ be32 L @ ty @ rest) lvl" L ty rest]
          ty L in simp_all)
qed

text \<open>C8. The first chunk after the signature, with a declared length of at most
  2^31-1 as every chunk of the data model has: a type other than IHDR fails as missing
  header, whatever the length; IHDR with a length other than 13 fails as bad header
  length; IHDR of length 13 whose payload byte 10 is not zero fails as unsupported
  compression method. Both files return these errors, for every codec and whatever follows
  in the source; the first file has then read nothing past the header chunk's payload.\<close>

theorem header_violations:
  assumes "length ty = 4" "ty \<noteq> IHDR" "L1 \<le> maxChunkLen"
    and "L2 \<le> maxChunkLen" "L2 \<noteq> 13"
    and "length ih = 13" "ih ! 10 \<noteq> 0"
  shows "Repack Z zo (pngHeader @ be32 L1 @ ty @ rest1) lvl = (Some ErrMissingIHDR, pngHeader)
    \<and> Repack2 Z zo (pngHeader @ be32 L1 @ ty @ rest1) lvl = Some (Some ErrMissingIHDR, [])
    \<and> Repack Z zo (pngHeader @ be32 L2 @ IHDR @ rest2) lvl = (Some ErrIHDRLength, pngHeader)
    \<and> Repack2 Z zo (pngHeader @ be32 L2 @ IHDR @ rest2) lvl = Some (Some ErrIHDRLength, [])
    \<and> Repack Z zo (pngHeader @ be32 13 @ IHDR @ ih @ rest3) lvl =
          (Some ErrCompressionMethod, pngHeader @ be32 13 @ IHDR)
    \<and> rp_r (snd (repack Z zo (newRepacker (pngHeader @ be32 13 @ IHDR @ ih @ rest3) lvl))) = rest3
    \<and> Repack2 Z zo (pngHeader @ be32 13 @ IHDR @ ih @ rest3) lvl =
          Some (Some ErrCompressionMethod, [])"
proof -
  have a1: "Repack Z zo (pngHeader @ be32 L1 @ ty @ rest1) lvl = (Some ErrMissingIHDR, pngHeader)"
    using header_bad_first[of "newRepacker (pngHeader @ be32 L1 @ ty @ rest1) lvl" L1 ty rest1] assms
    by (simp add: Repack_def repack_def newRepacker_def)
  have a2: "Repack2 Z zo (pngHeader @ be32 L1 @ ty @ rest1) lvl = Some (Some ErrMissingIHDR, [])"
    by (rule Repack2_header_error)
       (use verifyHeader_bad_first[of "NewReader (pngHeader @ be32 L1 @ ty @ rest1) lvl" L1 ty rest1]
          assms in simp_all)
  have b1: "Repack Z zo (pngHeader @ be32 L2 @ IHDR @ rest2) lvl = (Some ErrIHDRLength, pngHeader)"
    using header_bad_first[of "newRepacker (pngHeader @ be32 L2 @ IHDR @ rest2) lvl" L2 IHDR rest2]
      assms
    by (simp add: Repack_def repack_def newRepacker_def)
  have b2: "Repack2 Z zo (pngHeader @ be32 L2 @ IHDR @ rest2) lvl = Some (Some ErrIHDRLength, [])"
    by (rule Repack2_header_error)
       (use verifyHeader_bad_first[of "NewReader (pngHeader @ be32 L2 @ IHDR @ rest2) lvl" L2 IHDR
              rest2] assms in simp_all)
  let ?p = "newRepacker (pngHeader @ be32 13 @ IHDR @ ih @ rest3) lvl"
  note h = header_bad_method[of ?p ih rest3]
  have c1: "Repack Z zo (pngHeader @ be32 13 @ IHDR @ ih @ rest3) lvl =
          (Some ErrCompressionMethod, pngHeader @ be32 13 @ IHDR)"
    using h assms by (simp add: Repack_def repack_def newRepacker_def)
  have c2: "rp_r (snd (repack Z zo ?p)) = rest3"
    using h assms by (simp add: repack_def newRepacker_def)
  have c3: "Repack2 Z zo (pngHeader @ be32 13 @ IHDR @ ih @ rest3) lvl =
          Some (Some ErrCompressionMethod, [])"
    by (rule Repack2_header_error)
       (use verifyHeader_bad_method[of "NewReader (pngHeader @ be32 13 @ IHDR @ ih @ rest3) lvl"
              ih rest3] assms in simp_all)
  from a1 a2 b1 b2 c1 c2 c3 show ?thesis by blast
qed


theorem header_violations_witness:
  "length IEND = 4 \<and> IEND \<noteq> IHDR \<and> (0 :: u32) \<le> maxChunkLen \<and> (0 :: u32) \<noteq> 13
   \<and> length [0, 0, 0, 1, 0, 0, 0, 1, 8, 0, 1, 0, 0 :: byte] = 13
   \<and> [0, 0, 0, 1, 0, 0, 0, 1, 8, 0, 1, 0, 0 :: byte] ! 10 \<noteq> 0
   \<and> Repack zlibStore (storeOpen 3 []) (pngHeader @ be32 0 @ IEND @ []) 0 =
         (Some ErrMissingIHDR, pngHeader)
   \<and> Repack2 zlibStore (storeOpen 3 []) (pngHeader @ be32 0 @ IEND @ []) 0 =
         Some (Some ErrMissingIHDR, [])
   \<and> Repack zlibStore (storeOpen 3 []) (pngHeader @ be32 0 @ IHDR @ []) 0 =
         (Some ErrIHDRLength, pngHeader)
   \<and> Repack2 zlibStore (storeOpen 3 []) (pngHeader @ be32 0 @ IHDR @ []) 0 =
         Some (Some ErrIHDRLength, [])
   \<and> Repack zlibStore (storeOpen 3 [])
         (pngHeader @ be32 13 @ IHDR @ [0, 0, 0, 1, 0, 0, 0, 1, 8, 0, 1, 0, 0] @ chunk_bytes IEND []) 0 =
         (Some ErrCompressionMethod, pngHeader @ be32 13 @ IHDR)
   \<and> Repack2 zlibStore (storeOpen 3 [])
         (pngHeader @ be32 13 @ IHDR @ [0, 0, 0, 1, 0, 0, 0, 1, 8, 0, 1, 0, 0] @ chunk_bytes IEND []) 0 =
         Some (Some ErrCompressionMethod, [])"
proof -
  have h: "length IEND = 4" "IEND \<noteq> IHDR" "(0 :: u32) \<le> maxChunkLen" "(0 :: u32) \<noteq> 13"
    "length [0, 0, 0, 1, 0, 0, 0, 1, 8, 0, 1, 0, 0 :: byte] = 13"
    "[0, 0, 0, 1, 0, 0, 0, 1, 8, 0, 1, 0, 0 :: byte] ! 10 \<noteq> 0"
    by (simp_all add: IEND_def IHDR_def)
  from header_violations[OF h(1,2,3,3,4,5,6), of zlibStore "storeOpen 3 []" "[]" 0 "[]"
      "chunk_bytes IEND []"] h
  show ?thesis by blast
qed

text \<open>The size check of \<open>chunk\<close> and \<open>chunkHeader\<close> comes before the checks of the
  first chunk's type and length: at a declared length of 2^31 both files fail with the
  chunk-too-large error, whether the type is \<open>IHDR\<close> or not.\<close>

theorem header_oversize_length:
  "Repack zlibStore (storeOpen 3 []) (pngHeader @ be32 0x80000000 @ IEND @ []) 0 =
       (Some ErrChunkTooBig, pngHeader)
   \<and> Repack2 zlibStore (storeOpen 3 []) (pngHeader @ be32 0x80000000 @ IEND @ []) 0 =
       Some (Some ErrChunkTooBig, [])
   \<and> Repack zlibStore (storeOpen 3 []) (pngHeader @ be32 0x80000000 @ IHDR @ []) 0 =
       (Some ErrChunkTooBig, pngHeader)
   \<and> Repack2 zlibStore (storeOpen 3 []) (pngHeader @ be32 0x80000000 @ IHDR @ []) 0 =
       Some (Some ErrChunkTooBig, [])"
proof -
  have b: "(0x80000000 :: u32) > maxChunkLen" by (simp add: maxChunkLen_def)
  have l: "length IEND = 4" "length IHDR = 4" by (simp_all add: IEND_def IHDR_def)
  from Repack_header_big[OF l(1) b] Repack_header_big[OF l(2) b] show ?thesis by blast
qed
















text \<open>C4. Everything \<open>handleIDAT\<close> of the first file writes is a sequence of whole
  image-data chunks, and so is what one call of \<open>handleIDAT\<close> of the second file appends
  to its output buffer (one chunk or nothing; its buffer and accumulator are empty before
  the first call and after every call). Such a chunk is the big-endian length of its
  data, the tag \<open>IDAT\<close>, the data, and the big-endian CRC-32 of the tag followed by the
  data; for data shorter than 2^32 bytes, reading the chunk back gives that length, the
  tag, the data, and a checksum field equal to the CRC-32 recomputed over tag and data.\<close>

theorem emitted_idat_chunks:
  "(\<exists>ds. rp_w (snd (handleIDAT Z zo p len)) = rp_w p @ concat (map (chunk_bytes IDAT) ds))
   \<and> (rd_zbuf q = [] \<and> rd_zcrc q = crc_Reset \<longrightarrow>
        (\<exists>ds. rd_w (snd (handleIDAT2 Z2 q)) = rd_w q @ concat (map (chunk_bytes IDAT) ds)
            \<and> length ds \<le> 1
            \<and> rd_zbuf (snd (handleIDAT2 Z2 q)) = []
            \<and> rd_zcrc (snd (handleIDAT2 Z2 q)) = crc_Reset))
   \<and> rd_zbuf (NewReader src lvl) = [] \<and> rd_zcrc (NewReader src lvl) = crc_Reset
   \<and> chunk_bytes IDAT d =
        be32 (word_of_nat (length d)) @ IDAT @ d @ be32 (crc_Write crc_Reset (IDAT @ d))
   \<and> (length d < 2 ^ 32 \<longrightarrow>
        unat (Uint32 (take 4 (chunk_bytes IDAT d))) = length d
        \<and> take 4 (drop 4 (chunk_bytes IDAT d)) = IDAT
        \<and> take (length d) (drop 8 (chunk_bytes IDAT d)) = d
        \<and> Uint32 (drop (8 + length d) (chunk_bytes IDAT d)) = crc_Write crc_Reset (IDAT @ d))"
proof -
  have a: "\<exists>ds. rp_w (snd (handleIDAT Z zo p len)) = rp_w p @ concat (map (chunk_bytes IDAT) ds)"
    by (rule handleIDAT_chunks)
  have b: "rd_zbuf q = [] \<and> rd_zcrc q = crc_Reset \<longrightarrow>
        (\<exists>ds. rd_w (snd (handleIDAT2 Z2 q)) = rd_w q @ concat (map (chunk_bytes IDAT) ds)
            \<and> length ds \<le> 1
            \<and> rd_zbuf (snd (handleIDAT2 Z2 q)) = []
            \<and> rd_zcrc (snd (handleIDAT2 Z2 q)) = crc_Reset)"
    using handleIDAT2_chunks[of q Z2] by blast
  have c: "rd_zbuf (NewReader src lvl) = []" "rd_zcrc (NewReader src lvl) = crc_Reset"
    by (simp_all add: NewReader_def)
  have e: "chunk_crc IDAT d = crc_Write crc_Reset (IDAT @ d)"
    by (simp add: chunk_crc_def crc_Write_append)
  have d: "chunk_bytes IDAT d =
        be32 (word_of_nat (length d)) @ IDAT @ d @ be32 (crc_Write crc_Reset (IDAT @ d))"
    by (simp add: chunk_bytes_def e)
  have f: "length d < 2 ^ 32 \<longrightarrow>
        unat (Uint32 (take 4 (chunk_bytes IDAT d))) = length d
        \<and> take 4 (drop 4 (chunk_bytes IDAT d)) = IDAT
        \<and> take (length d) (drop 8 (chunk_bytes IDAT d)) = d
        \<and> Uint32 (drop (8 + length d) (chunk_bytes IDAT d)) = crc_Write crc_Reset (IDAT @ d)"
    using chunk_bytes_parse[of IDAT d] e by simp
  from a b c d f show ?thesis by blast
qed

theorem emitted_idat_chunks_witness:
  "rd_zbuf (snd (refill zlibStore (storeOpen 3 [])
              (idatEntry2 ihdr1 12 (idat_in1 @ be32 (chunk_crc IDAT idat_in1)) 0))) = []
   \<and> rd_zcrc (snd (refill zlibStore (storeOpen 3 [])
              (idatEntry2 ihdr1 12 (idat_in1 @ be32 (chunk_crc IDAT idat_in1)) 0))) = crc_Reset
   \<and> rd_w (snd (handleIDAT2 zlibStore (snd (refill zlibStore (storeOpen 3 [])
              (idatEntry2 ihdr1 12 (idat_in1 @ be32 (chunk_crc IDAT idat_in1)) 0))))) =
       chunk_bytes IDAT idat_closed1
   \<and> (\<exists>ds. rd_w (snd (handleIDAT2 zlibStore (snd (refill zlibStore (storeOpen 3 [])
              (idatEntry2 ihdr1 12 (idat_in1 @ be32 (chunk_crc IDAT idat_in1)) 0))))) =
            concat (map (chunk_bytes IDAT) ds) \<and> length ds \<le> 1)
   \<and> length idat_closed1 < 2 ^ 32
   \<and> unat (Uint32 (take 4 (chunk_bytes IDAT idat_closed1))) = 22
   \<and> Uint32 (drop 30 (chunk_bytes IDAT idat_closed1)) = crc_Write crc_Reset (IDAT @ idat_closed1)"
proof -
  let ?T = "be32 (chunk_crc IDAT idat_in1)"
  let ?q = "snd (refill zlibStore (storeOpen 3 []) (idatEntry2 ihdr1 12 (idat_in1 @ ?T) 0))"
  note c = png1_stage_codec[of ?T]
  from png1_stage_idat[of ?T] have w: "rd_w ?q = []"
    "rd_w (snd (handleIDAT2 zlibStore ?q)) = chunk_bytes IDAT idat_closed1"
    by auto
  have l: "length idat_closed1 = 22" by (simp add: idat_closed1_def idat_flushed1_def)
  note t = emitted_idat_chunks[of zlibStore "storeOpen 3 []" "newRepacker [] 0" 0 ?q zlibStore
      "[]" 0 idat_closed1]
  from t c w l show ?thesis by (auto simp del: storeOpen.simps storeRd.simps)
qed

end
